theory Spec2Isabelle
  imports Main "HOL-Library.Sublist"
begin

section \<open>Text primitives\<close>

text \<open>
  Page text is a \<open>string\<close>: a list of characters whose code points lie below 256.
  On this range Python's \<open>\s\<close> and \<open>str.strip()\<close> recognise the same twelve
  characters, \<open>\d\<close> recognises the ten ASCII digits, and case folding only
  affects the ASCII letters.
\<close>

definition newline :: char where
  "newline = CHR 0x0A"

definition is_space :: "char \<Rightarrow> bool" where
  "is_space c = (c \<in> set [CHR 0x09, CHR 0x0A, CHR 0x0B, CHR 0x0C, CHR 0x0D,
                           CHR 0x1C, CHR 0x1D, CHR 0x1E, CHR 0x1F, CHR 0x20,
                           CHR 0x85, CHR 0xA0])"

definition is_digit :: "char \<Rightarrow> bool" where
  "is_digit c = (c \<in> set ''0123456789'')"

definition lower :: "char \<Rightarrow> char" where
  "lower c = (case map_of (zip ''ABCDEFGHIJKLMNOPQRSTUVWXYZ''
                               ''abcdefghijklmnopqrstuvwxyz'') c of
                Some d \<Rightarrow> d | None \<Rightarrow> c)"

text \<open>\<open>str.strip()\<close>: whitespace is removed at both ends.\<close>

definition strip :: "string \<Rightarrow> string" where
  "strip s = rev (dropWhile is_space (rev (dropWhile is_space s)))"

text \<open>\<open>str.split(sep)\<close> for a one-character separator: never an empty list.\<close>

fun split_on :: "char \<Rightarrow> string \<Rightarrow> string list" where
  "split_on sep [] = [[]]"
| "split_on sep (c # cs) =
     (if c = sep then [] # split_on sep cs
      else (case split_on sep cs of
              l # ls \<Rightarrow> (c # l) # ls
            | [] \<Rightarrow> [[c]]))"

text \<open>\<open>str.replace('\n', ' ')\<close>.\<close>

definition replace_newlines :: "string \<Rightarrow> string" where
  "replace_newlines s = map (\<lambda>c. if c = newline then CHR '' '' else c) s"

text \<open>\<open>int(s)\<close> on a string of ASCII digits.\<close>

definition digit_value :: "char \<Rightarrow> int" where
  "digit_value c = int (length (takeWhile (\<lambda>d. d \<noteq> c) ''0123456789''))"

definition int_of_digits :: "string \<Rightarrow> int" where
  "int_of_digits s = foldl (\<lambda>a c. 10 * a + digit_value c) 0 s"

text \<open>The slice \<open>s[i:j]\<close> for \<open>0 \<le> i\<close> and \<open>0 \<le> j\<close>.\<close>

definition slice :: "string \<Rightarrow> nat \<Rightarrow> nat \<Rightarrow> string" where
  "slice s i j = take (j - i) (drop i s)"

section \<open>Regular expressions with backtracking\<close>

text \<open>
  The patterns of the program are run by a backtracking matcher in the manner of
  Python's \<open>re\<close>: a pattern applied at a position yields the list of all ways it can
  match there, in the order in which backtracking tries them (left alternative first,
  longest repetition first). The first element is the match that \<open>re\<close> reports.
  A result is the end position, the text that remains, and the captured groups in the
  order of their opening parentheses.
\<close>

datatype regex =
    Eps
  | Atom "char \<Rightarrow> bool"
  | Bol
  | Eol
  | Seq regex regex
  | Alt regex regex
  | Star regex
  | Group regex

type_synonym mres = "nat \<times> string \<times> string list"

fun rm :: "regex \<Rightarrow> nat \<Rightarrow> string \<Rightarrow> mres list" where
  "rm Eps n s = [(n, s, [])]"
| "rm (Atom P) n s =
     (case s of [] \<Rightarrow> [] | c # cs \<Rightarrow> if P c then [(Suc n, cs, [])] else [])"
| "rm Bol n s = (if n = 0 then [(n, s, [])] else [])"
| "rm Eol n s = (if s = [] \<or> s = [newline] then [(n, s, [])] else [])"
| "rm (Seq r1 r2) n s =
     concat (map (\<lambda>(n1, s1, g1).
                    map (\<lambda>(n2, s2, g2). (n2, s2, g1 @ g2)) (rm r2 n1 s1))
                 (rm r1 n s))"
| "rm (Alt r1 r2) n s = rm r1 n s @ rm r2 n s"
| "rm (Star r) n s =
     concat (map (\<lambda>(n1, s1, g1).
                    if length s1 < length s
                    then map (\<lambda>(n2, s2, g2). (n2, s2, g1 @ g2)) (rm (Star r) n1 s1)
                    else [])
                 (rm r n s))
     @ [(n, s, [])]"
| "rm (Group r) n s =
     map (\<lambda>(n1, s1, g1). (n1, s1, take (n1 - n) s # g1)) (rm r n s)"

text \<open>Derived pattern forms: \<open>r+\<close>, \<open>r?\<close>, a sequence, a literal, a character set.\<close>

definition plus :: "regex \<Rightarrow> regex" where
  "plus r = Seq r (Star r)"

definition opt :: "regex \<Rightarrow> regex" where
  "opt r = Alt r Eps"

definition seqs :: "regex list \<Rightarrow> regex" where
  "seqs rs = foldr Seq rs Eps"

definition chr :: "char \<Rightarrow> regex" where
  "chr c = Atom (\<lambda>x. x = c)"

definition lit :: "string \<Rightarrow> regex" where
  "lit s = seqs (map chr s)"

definition chr_ic :: "char \<Rightarrow> regex" where
  "chr_ic c = Atom (\<lambda>x. lower x = lower c)"

definition lit_ic :: "string \<Rightarrow> regex" where
  "lit_ic s = seqs (map chr_ic s)"

definition one_of :: "string \<Rightarrow> regex" where
  "one_of cs = Atom (\<lambda>x. x \<in> set cs)"

definition digit :: regex where
  "digit = Atom is_digit"

definition space :: regex where
  "space = Atom is_space"

definition dot :: regex where
  "dot = Atom (\<lambda>x. x \<noteq> newline)"

text \<open>A match object: \<open>start()\<close>, \<open>end()\<close> and \<open>groups()\<close>.\<close>

record match =
  m_start :: nat
  m_end :: nat
  m_groups :: "string list"

definition group :: "match \<Rightarrow> nat \<Rightarrow> string" where
  "group m k = m_groups m ! (k - 1)"

definition group0 :: "string \<Rightarrow> match \<Rightarrow> string" where
  "group0 s m = slice s (m_start m) (m_end m)"

definition re_match :: "regex \<Rightarrow> string \<Rightarrow> match option" where
  "re_match r s =
     (case rm r 0 s of
        [] \<Rightarrow> None
      | (e, s', gs) # _ \<Rightarrow> Some \<lparr>m_start = 0, m_end = e, m_groups = gs\<rparr>)"

text \<open>
  \<open>finditer\<close> scans from left to right; after a match the scan resumes where the match
  ended. Every pattern the program hands to \<open>finditer\<close> consumes at least one
  character, so the branch for an empty match (which steps one character ahead) is
  never taken by the program.
\<close>

function finditer_from :: "regex \<Rightarrow> nat \<Rightarrow> string \<Rightarrow> match list" where
  "finditer_from r n s =
     (case rm r n s of
        (e, s', gs) # _ \<Rightarrow>
          \<lparr>m_start = n, m_end = e, m_groups = gs\<rparr> #
            (if length s' < length s then finditer_from r e s'
             else (case s of [] \<Rightarrow> [] | _ # cs \<Rightarrow> finditer_from r (Suc n) cs))
      | [] \<Rightarrow> (case s of [] \<Rightarrow> [] | _ # cs \<Rightarrow> finditer_from r (Suc n) cs))"
  by pat_completeness auto
termination
  by (relation "measure (\<lambda>(r, n, s). length s)") auto

declare finditer_from.simps [simp del]

definition finditer :: "regex \<Rightarrow> string \<Rightarrow> match list" where
  "finditer r s = finditer_from r 0 s"

definition re_search :: "regex \<Rightarrow> string \<Rightarrow> match option" where
  "re_search r s = (case finditer r s of [] \<Rightarrow> None | m # _ \<Rightarrow> Some m)"

section \<open>The patterns of the program\<close>

text \<open>\<^verbatim>\<open>^(?:Chapter|CHAPTER)\s+(\d+|[IVXLC]+)[.:]\s*(.+)\<close>\<close>

definition chapter_re :: regex where
  "chapter_re =
     seqs [Bol, Alt (lit ''Chapter'') (lit ''CHAPTER''), plus space,
           Group (Alt (plus digit) (plus (one_of ''IVXLC''))),
           one_of ''.:'', Star space, Group (plus dot)]"

text \<open>\<^verbatim>\<open>^(\d+\.(?:\d+)*)\s+(.+)\<close>\<close>

definition section_re :: regex where
  "section_re =
     seqs [Bol, Group (seqs [plus digit, chr CHR ''.'', Star (plus digit)]),
           plus space, Group (plus dot)]"

text \<open>\<^verbatim>\<open>^References$|^Bibliography$\<close> with \<open>re.IGNORECASE\<close>\<close>

definition reference_re :: regex where
  "reference_re =
     Alt (seqs [Bol, lit_ic ''References'', Eol])
         (seqs [Bol, lit_ic ''Bibliography'', Eol])"

text \<open>\<^verbatim>\<open>^Appendix\s+([A-Z]):\s*(.+)\<close>\<close>

definition appendix_re :: regex where
  "appendix_re =
     seqs [Bol, lit ''Appendix'', plus space,
           Group (one_of ''ABCDEFGHIJKLMNOPQRSTUVWXYZ''),
           chr CHR '':'', Star space, Group (plus dot)]"

text \<open>\<^verbatim>\<open>Figure\s+(\d+\.?\d*)[.:]\s*(.+)\<close> and the same with \<^verbatim>\<open>Table\<close>\<close>

definition caption_re :: "string \<Rightarrow> regex" where
  "caption_re word =
     seqs [lit word, plus space,
           Group (seqs [plus digit, opt (chr CHR ''.''), Star digit]),
           one_of ''.:'', Star space, Group (plus dot)]"

definition figure_re :: regex where
  "figure_re = caption_re ''Figure''"

definition table_re :: regex where
  "table_re = caption_re ''Table''"

text \<open>\<^verbatim>\<open>\(\s*(?:eq|equation)?\s*(\d+\.?\d*)\s*\)\<close> with \<open>re.IGNORECASE\<close>\<close>

definition equation_re :: regex where
  "equation_re =
     seqs [chr CHR ''('', Star space,
           opt (Alt (lit_ic ''eq'') (lit_ic ''equation'')), Star space,
           Group (seqs [plus digit, opt (chr CHR ''.''), Star digit]),
           Star space, chr CHR '')'']"

text \<open>\<^verbatim>\<open>Chapter \d+: \<close> and \<^verbatim>\<open>\d+\<close> of the chapter locator\<close>

definition locator_re :: regex where
  "locator_re = seqs [lit ''Chapter '', plus digit, lit '': '']"

definition number_re :: regex where
  "number_re = plus digit"

section \<open>The structural classifier (\<open>AcademicBookMapper\<close>)\<close>

record section_rec =
  sec_number :: string
  sec_title :: string
  sec_page :: nat
  sec_level :: int

record chapter_rec =
  ch_number :: string
  ch_title :: string
  ch_page :: nat
  ch_sections :: "section_rec list"

record caption_rec =
  cap_number :: string
  cap_caption :: string
  cap_page :: nat

record equation_rec =
  eq_number :: string
  eq_page :: nat

record reference_rec =
  ref_title :: string
  ref_page :: nat

record appendix_rec =
  app_letter :: string
  app_title :: string
  app_page :: nat

text \<open>
  The instance state. The dictionary \<open>structure\<close> is flattened into one field per key.
  \<open>current_chapter\<close> refers to a dictionary that is also an element of
  \<open>structure['chapters']\<close>: it is the index of that element in \<open>chapters\<close>, so that
  appending a section through \<open>current_chapter\<close> changes the chapter in the list.
  The attribute \<open>hierarchy\<close> is never read or written after construction.
\<close>

record mapper =
  file_path :: string
  toc :: "string list"
  chapters :: "chapter_rec list"
  sections :: "section_rec list"
  figures :: "caption_rec list"
  tables :: "caption_rec list"
  equations :: "equation_rec list"
  references :: "reference_rec list"
  appendices :: "appendix_rec list"
  current_chapter :: "nat option"

definition init :: "string \<Rightarrow> mapper" where
  "init path =
     \<lparr>file_path = path, toc = [], chapters = [], sections = [], figures = [],
      tables = [], equations = [], references = [], appendices = [],
      current_chapter = None\<rparr>"

text \<open>The body of the loop over the lines of a page.\<close>

definition analyze_line :: "nat \<Rightarrow> mapper \<Rightarrow> string \<Rightarrow> mapper" where
  "analyze_line page_num self line =
     (case re_match chapter_re line of
        Some chapter_match \<Rightarrow>
          self\<lparr>current_chapter := Some (length (chapters self)),
               chapters := chapters self @
                 [\<lparr>ch_number = group chapter_match 1,
                   ch_title = strip (group chapter_match 2),
                   ch_page = page_num,
                   ch_sections = []\<rparr>]\<rparr>
      | None \<Rightarrow>
     (case re_match section_re line of
        Some section_match \<Rightarrow>
          (let section =
                 \<lparr>sec_number = group section_match 1,
                  sec_title = strip (group section_match 2),
                  sec_page = page_num,
                  sec_level =
                    int (length (split_on CHR ''.'' (group section_match 1))) - 1\<rparr>;
               self1 =
                 (case current_chapter self of
                    Some i \<Rightarrow>
                      self\<lparr>chapters := (chapters self)
                        [i := (chapters self ! i)
                           \<lparr>ch_sections := ch_sections (chapters self ! i) @ [section]\<rparr>]\<rparr>
                  | None \<Rightarrow> self)
           in self1\<lparr>sections := sections self1 @ [section]\<rparr>)
      | None \<Rightarrow>
     (case re_match reference_re line of
        Some _ \<Rightarrow>
          self\<lparr>references := references self @
                 [\<lparr>ref_title = strip line, ref_page = page_num\<rparr>]\<rparr>
      | None \<Rightarrow>
     (case re_match appendix_re line of
        Some appendix_match \<Rightarrow>
          self\<lparr>appendices := appendices self @
                 [\<lparr>app_letter = group appendix_match 1,
                   app_title = strip (group appendix_match 2),
                   app_page = page_num\<rparr>]\<rparr>
      | None \<Rightarrow> self))))"

definition analyze_page_structure :: "string \<Rightarrow> nat \<Rightarrow> mapper \<Rightarrow> mapper" where
  "analyze_page_structure text page_num self =
     foldl (analyze_line page_num) self (split_on newline text)"

definition caption_of :: "nat \<Rightarrow> match \<Rightarrow> caption_rec" where
  "caption_of page_num m =
     \<lparr>cap_number = group m 1, cap_caption = strip (group m 2), cap_page = page_num\<rparr>"

definition detect_figures_tables :: "string \<Rightarrow> nat \<Rightarrow> mapper \<Rightarrow> mapper" where
  "detect_figures_tables text page_num self =
     self\<lparr>figures := figures self @ map (caption_of page_num) (finditer figure_re text),
          tables := tables self @ map (caption_of page_num) (finditer table_re text),
          equations := equations self @
            map (\<lambda>m. \<lparr>eq_number = group m 1, eq_page = page_num\<rparr>)
                (finditer equation_re text)\<rparr>"

text \<open>
  A page of the document, as the extraction library presents it: \<open>extract_text()\<close>
  gives a string or \<open>None\<close>, \<open>extract_words(...)\<close> gives the words with their font
  sizes (of some numeric type \<open>'f\<close>).
\<close>

record 'f page =
  extract_text :: "string option"
  extract_words :: "(string \<times> 'f) list"

text \<open>The loop of \<open>analyze\<close> over \<open>enumerate(pdf.pages, 1)\<close>.\<close>

fun analyze_pages :: "'f page list \<Rightarrow> nat \<Rightarrow> mapper \<Rightarrow> mapper" where
  "analyze_pages [] page_num self = self"
| "analyze_pages (p # ps) page_num self =
     analyze_pages ps (Suc page_num)
       (case extract_text p of
          None \<Rightarrow> self
        | Some text \<Rightarrow>
            if text = [] then self
            else detect_figures_tables text page_num
                   (analyze_page_structure text page_num self))"

record summary =
  total_chapters :: nat
  total_figures :: nat
  total_tables :: nat
  total_equations :: nat

record book_structure =
  bs_chapters :: "chapter_rec list"
  bs_figures :: "caption_rec list"
  bs_tables :: "caption_rec list"
  bs_equations :: "equation_rec list"
  bs_references :: "reference_rec list"
  bs_appendices :: "appendix_rec list"

record book_map =
  bm_summary :: summary
  bm_structure :: book_structure

definition generate_book_map :: "mapper \<Rightarrow> book_map" where
  "generate_book_map self =
     \<lparr>bm_summary =
        \<lparr>total_chapters = length (chapters self),
         total_figures = length (figures self),
         total_tables = length (tables self),
         total_equations = length (equations self)\<rparr>,
      bm_structure =
        \<lparr>bs_chapters =
           map (\<lambda>chapter.
                  \<lparr>ch_number = ch_number chapter, ch_title = ch_title chapter,
                   ch_page = ch_page chapter,
                   ch_sections =
                     map (\<lambda>section.
                            \<lparr>sec_number = sec_number section,
                             sec_title = sec_title section,
                             sec_page = sec_page section,
                             sec_level = sec_level section\<rparr>)
                         (ch_sections chapter)\<rparr>)
               (chapters self),
         bs_figures = figures self,
         bs_tables = tables self,
         bs_equations = equations self,
         bs_references = references self,
         bs_appendices = appendices self\<rparr>\<rparr>"

definition analyze :: "'f page list \<Rightarrow> mapper \<Rightarrow> book_map" where
  "analyze pages self = generate_book_map (analyze_pages pages 1 self)"

definition map_academic_book :: "string \<Rightarrow> 'f page list \<Rightarrow> book_map" where
  "map_academic_book path pages = analyze pages (init path)"

section \<open>The chapter locator (\<open>find_chapters_with_details\<close>)\<close>

datatype py_error = TypeError | AttributeError

text \<open>
  A result tuple: chapter number, zero-based page index, font size or \<open>None\<close>,
  context, matched text.
\<close>

type_synonym 'f result = "int \<times> nat \<times> 'f option \<times> string \<times> string"

text \<open>The first word whose text contains \<open>Chapter\<close> gives the font size.\<close>

fun find_font_size :: "(string \<times> 'f) list \<Rightarrow> 'f option" where
  "find_font_size [] = None"
| "find_font_size ((word_text, word_size) # words) =
     (if sublist ''Chapter'' word_text then Some word_size else find_font_size words)"

text \<open>
  The body of the loop over the matches of a page. \<open>re.search(r'\d+', ...)\<close> may
  return \<open>None\<close>, on which \<open>.group()\<close> raises.
\<close>

definition match_result ::
    "'f page \<Rightarrow> nat \<Rightarrow> string \<Rightarrow> match \<Rightarrow> py_error + 'f result list" where
  "match_result page page_num text m =
     (let chapter_text = group0 text m in
      case re_search number_re chapter_text of
        None \<Rightarrow> Inl AttributeError
      | Some d \<Rightarrow>
          (let chapter_num = int_of_digits (group0 chapter_text d) in
           if 1 \<le> chapter_num \<and> chapter_num \<le> 25 then
             (let start = nat (max 0 (int (m_start m) - 30));
                  end = min (length text) (m_end m + 30);
                  context = strip (replace_newlines (slice text start end));
                  font_size = find_font_size (extract_words page)
              in Inr [(chapter_num, page_num, font_size, context, chapter_text)])
           else Inr []))"

fun match_results ::
    "'f page \<Rightarrow> nat \<Rightarrow> string \<Rightarrow> match list \<Rightarrow> py_error + 'f result list" where
  "match_results page page_num text [] = Inr []"
| "match_results page page_num text (m # ms) =
     (case match_result page page_num text m of
        Inl e \<Rightarrow> Inl e
      | Inr rs \<Rightarrow>
          (case match_results page page_num text ms of
             Inl e \<Rightarrow> Inl e
           | Inr rs' \<Rightarrow> Inr (rs @ rs')))"

text \<open>
  One page: \<open>pattern.finditer(text)\<close> raises \<open>TypeError\<close> when \<open>text\<close> is
  \<open>None\<close>.
\<close>

definition scan_page :: "'f page \<Rightarrow> nat \<Rightarrow> py_error + 'f result list" where
  "scan_page page page_num =
     (case extract_text page of
        None \<Rightarrow> Inl TypeError
      | Some text \<Rightarrow> match_results page page_num text (finditer locator_re text))"

text \<open>The loop over \<open>range(total_pages)\<close>; an exception ends it.\<close>

fun scan_pages :: "'f page list \<Rightarrow> nat \<Rightarrow> py_error + 'f result list" where
  "scan_pages [] page_num = Inr []"
| "scan_pages (p # ps) page_num =
     (case scan_page p page_num of
        Inl e \<Rightarrow> Inl e
      | Inr rs \<Rightarrow>
          (case scan_pages ps (Suc page_num) of
             Inl e \<Rightarrow> Inl e
           | Inr rs' \<Rightarrow> Inr (rs @ rs')))"

text \<open>
  \<open>results.sort(key=lambda x: x[0])\<close>: Python's sort is stable, and so is
  \<open>sort_key\<close>; a stable sort by a key has one possible outcome.
\<close>

definition find_chapters_with_details :: "'f page list \<Rightarrow> py_error + 'f result list" where
  "find_chapters_with_details pdf =
     (case scan_pages pdf 0 of
        Inl e \<Rightarrow> Inl e
      | Inr results \<Rightarrow> Inr (sort_key fst results))"

text \<open>
  The last step of \<open>display_chapter_analysis\<close>: the set of chapter numbers found, and
  the list printed after \<open>Missing chapters:\<close>, or \<open>None\<close> when that line is not
  printed (no results, or no gap).
\<close>

definition found_chapters :: "'f result list \<Rightarrow> int set" where
  "found_chapters results = fst ` set results"

definition missing_chapters :: "'f result list \<Rightarrow> int list option" where
  "missing_chapters results =
     (if results = [] then None
      else
        (if found_chapters results = {} then None
         else
           (let expected_chapters = set [1 .. Max (found_chapters results)];
                missing = expected_chapters - found_chapters results
            in if missing = {} then None
               else Some (sorted_list_of_set missing))))"

text \<open>The diagnostic as a list: empty when nothing is printed.\<close>

definition reported :: "int list option \<Rightarrow> int list" where
  "reported out = (case out of None \<Rightarrow> [] | Some l \<Rightarrow> l)"

section \<open>Nearest-preceding-chapter association\<close>

text \<open>The Chapter record and the Section record that a line yields, if any: the first
  two branches of the loop body.\<close>

definition chapter_of :: "nat \<Rightarrow> string \<Rightarrow> chapter_rec option" where
  "chapter_of page_num line =
     map_option (\<lambda>m. \<lparr>ch_number = group m 1, ch_title = strip (group m 2),
                       ch_page = page_num, ch_sections = []\<rparr>)
       (re_match chapter_re line)"

definition section_of :: "nat \<Rightarrow> string \<Rightarrow> section_rec option" where
  "section_of page_num line =
     (if re_match chapter_re line \<noteq> None then None
      else map_option
             (\<lambda>m. \<lparr>sec_number = group m 1, sec_title = strip (group m 2),
                    sec_page = page_num,
                    sec_level = int (length (split_on CHR ''.'' (group m 1))) - 1\<rparr>)
             (re_match section_re line))"

text \<open>The lines the classifier scans, in scan order, each with its page number.\<close>

fun page_lines :: "'f page list \<Rightarrow> nat \<Rightarrow> (nat \<times> string) list" where
  "page_lines [] page_num = []"
| "page_lines (p # ps) page_num =
     (case extract_text p of
        None \<Rightarrow> []
      | Some text \<Rightarrow> if text = [] then [] else map (Pair page_num) (split_on newline text))
     @ page_lines ps (Suc page_num)"

text \<open>
  The association the specification describes: every Section record goes to the global
  list; a Chapter record owns the Section records of the lines after it, up to the next
  Chapter line; the sections before the first Chapter line belong to no chapter.
\<close>

definition all_sections :: "(nat \<times> string) list \<Rightarrow> section_rec list" where
  "all_sections ls = List.map_filter (\<lambda>(n, l). section_of n l) ls"

definition sections_until_next_chapter :: "(nat \<times> string) list \<Rightarrow> section_rec list" where
  "sections_until_next_chapter ls =
     all_sections (takeWhile (\<lambda>(n, l). chapter_of n l = None) ls)"

fun attached_chapters :: "(nat \<times> string) list \<Rightarrow> chapter_rec list" where
  "attached_chapters [] = []"
| "attached_chapters ((n, l) # ls) =
     (case chapter_of n l of
        Some c \<Rightarrow> c\<lparr>ch_sections := sections_until_next_chapter ls\<rparr> # attached_chapters ls
      | None \<Rightarrow> attached_chapters ls)"

text \<open>
  A reference heading, as the specification describes it: the line is, ignoring case,
  exactly \<open>References\<close> or \<open>Bibliography\<close>. The reference records of a list of
  scanned lines: one per reference heading, with the line and its page number.
\<close>

definition is_reference_heading :: "string \<Rightarrow> bool" where
  "is_reference_heading line =
     (map lower line \<in> {map lower ''References'', map lower ''Bibliography''})"

definition reference_records :: "(nat \<times> string) list \<Rightarrow> reference_rec list" where
  "reference_records ls =
     map (\<lambda>(n, l). \<lparr>ref_title = l, ref_page = n\<rparr>)
         (filter (\<lambda>(n, l). is_reference_heading l) ls)"

section \<open>Occurrences of the locator's token\<close>






section \<open>Auxiliary notions for the proofs\<close>

text \<open>The first element of a list of results, patterns without a start anchor, and
  results and matches moved by an offset.\<close>

definition first_result :: "'a list \<Rightarrow> 'a option" where
  "first_result xs = (case xs of [] \<Rightarrow> None | x # _ \<Rightarrow> Some x)"

fun bol_free :: "regex \<Rightarrow> bool" where
  "bol_free Bol = False"
| "bol_free (Seq r1 r2) = (bol_free r1 \<and> bol_free r2)"
| "bol_free (Alt r1 r2) = (bol_free r1 \<and> bol_free r2)"
| "bol_free (Star r) = bol_free r"
| "bol_free (Group r) = bol_free r"
| "bol_free r = True"

definition shift :: "nat \<Rightarrow> mres \<Rightarrow> mres" where
  "shift k x = (fst x + k, snd x)"

definition shift_match :: "nat \<Rightarrow> match \<Rightarrow> match" where
  "shift_match k m = m\<lparr>m_start := m_start m + k, m_end := m_end m + k\<rparr>"

text \<open>The part of the state that the line loop reads and writes for chapters and sections,
  and the effect of one line on it.\<close>

type_synonym core = "chapter_rec list \<times> section_rec list \<times> nat option"

definition core :: "mapper \<Rightarrow> core" where
  "core self = (chapters self, sections self, current_chapter self)"

fun line_step :: "core \<Rightarrow> nat \<times> string \<Rightarrow> core" where
  "line_step (chs, secs, cur) (n, l) =
     (case chapter_of n l of
        Some c \<Rightarrow> (chs @ [c], secs, Some (length chs))
      | None \<Rightarrow>
          (case section_of n l of
             Some sec \<Rightarrow>
               ((case cur of
                   Some i \<Rightarrow> chs[i := (chs ! i)\<lparr>ch_sections := ch_sections (chs ! i) @ [sec]\<rparr>]
                 | None \<Rightarrow> chs),
                secs @ [sec], cur)
           | None \<Rightarrow> (chs, secs, cur)))"

section \<open>Properties of the matcher\<close>

lemma rm_chr [simp]:
  "rm (chr c) n s = (case s of [] \<Rightarrow> [] | x # xs \<Rightarrow> if x = c then [(Suc n, xs, [])] else [])"
  by (simp add: chr_def)

lemma seqs_Nil [simp]: "seqs [] = Eps"
  by (simp add: seqs_def)

lemma seqs_Cons [simp]: "seqs (r # rs) = Seq r (seqs rs)"
  by (simp add: seqs_def)

lemma rm_lit:
  "rm (lit w) n s =
     (if prefix w s then [(n + length w, drop (length w) s, [])] else [])"
proof (induction w arbitrary: n s)
  case Nil
  then show ?case by (simp add: lit_def)
next
  case (Cons c w)
  have step: "lit (c # w) = Seq (chr c) (lit w)"
    by (simp add: lit_def)
  show ?case
  proof (cases s)
    case Nil
    then show ?thesis by (simp add: step)
  next
    case (Cons x xs)
    then show ?thesis using Cons.IH [of "Suc n" xs] by (simp add: step)
  qed
qed

lemma rm_star_atom:
  "rm (Star (Atom P)) n s =
     map (\<lambda>k. (n + k, drop k s, [])) (rev [0 ..< Suc (length (takeWhile P s))])"
proof (induction s arbitrary: n)
  case Nil
  then show ?case by simp
next
  case (Cons c cs)
  show ?case
  proof (cases "P c")
    case False
    then show ?thesis by simp
  next
    case True
    have up: "[0 ..< Suc (Suc m)] = 0 # map Suc [0 ..< Suc m]" for m
      by (simp only: map_Suc_upt upt_conv_Cons [of 0 "Suc (Suc m)"] zero_less_Suc if_True)
    show ?thesis using True Cons.IH [of "Suc n"]
      by (simp add: up rev_map o_def del: upt_Suc)
  qed
qed

lemma rm_plus_atom:
  "rm (plus (Atom P)) n s =
     map (\<lambda>k. (n + k, drop k s, [])) (rev [1 ..< Suc (length (takeWhile P s))])"
proof (cases s)
  case Nil
  then show ?thesis by (simp add: plus_def)
next
  case (Cons c cs)
  show ?thesis
  proof (cases "P c")
    case False
    then show ?thesis using Cons by (simp add: plus_def)
  next
    case True
    have up: "[Suc 0 ..< Suc (Suc m)] = map Suc [0 ..< Suc m]" for m
      by (simp only: map_Suc_upt)
    show ?thesis using True Cons
      by (simp add: plus_def rm_star_atom up rev_map o_def del: upt_Suc rm.simps(7))
  qed
qed

lemma first_result_simps [simp]:
  "first_result [] = None" "first_result (x # xs) = Some x"
  by (simp_all add: first_result_def)

lemma re_match_first:
  "re_match r s = map_option (\<lambda>(e, s', gs). \<lparr>m_start = 0, m_end = e, m_groups = gs\<rparr>)
     (first_result (rm r 0 s))"
  by (simp add: re_match_def first_result_def split: list.splits)

lemma first_result_append:
  "first_result (xs @ ys) = (case first_result xs of None \<Rightarrow> first_result ys | Some x \<Rightarrow> Some x)"
  by (cases xs) simp_all

lemma first_seq:
  assumes "first_result (rm r1 n s) = Some (n1, s1, g1)"
      and "first_result (rm r2 n1 s1) = Some (n2, s2, g2)"
    shows "first_result (rm (Seq r1 r2) n s) = Some (n2, s2, g1 @ g2)"
proof -
  obtain xs where 1: "rm r1 n s = (n1, s1, g1) # xs"
    using assms(1) by (cases "rm r1 n s") simp_all
  obtain ys where 2: "rm r2 n1 s1 = (n2, s2, g2) # ys"
    using assms(2) by (cases "rm r2 n1 s1") simp_all
  show ?thesis by (simp add: 1 2)
qed

lemma first_seq_skip:
  assumes "rm r1 n s = (a, b, c) # (n1, s1, g1) # xs"
      and "rm r2 a b = []"
      and "first_result (rm r2 n1 s1) = Some (n2, s2, g2)"
    shows "first_result (rm (Seq r1 r2) n s) = Some (n2, s2, g1 @ g2)"
proof -
  obtain ys where 2: "rm r2 n1 s1 = (n2, s2, g2) # ys"
    using assms(3) by (cases "rm r2 n1 s1") simp_all
  show ?thesis by (simp add: assms(1,2) 2)
qed

lemma first_group:
  assumes "first_result (rm r n s) = Some (n1, s1, g1)"
  shows "first_result (rm (Group r) n s) = Some (n1, s1, take (n1 - n) s # g1)"
proof -
  obtain xs where 1: "rm r n s = (n1, s1, g1) # xs"
    using assms(1) by (cases "rm r n s") simp_all
  show ?thesis by (simp add: 1)
qed

lemma rev_upt_Suc: "rev [i ..< Suc j] = (if i \<le> j then j # rev [i ..< j] else [])"
  by simp

lemma first_star_atom:
  "first_result (rm (Star (Atom P)) n s) =
     Some (n + length (takeWhile P s), dropWhile P s, [])"
  by (simp add: rm_star_atom dropWhile_eq_drop del: rm.simps)

lemma first_plus_atom:
  "first_result (rm (plus (Atom P)) n s) =
     (if s \<noteq> [] \<and> P (hd s) then Some (n + length (takeWhile P s), dropWhile P s, [])
      else None)"
proof (cases "s \<noteq> [] \<and> P (hd s)")
  case True
  then have "1 \<le> length (takeWhile P s)" by (cases s) auto
  then show ?thesis using True
    by (simp add: rm_plus_atom dropWhile_eq_drop del: rm.simps)
next
  case False
  then have "length (takeWhile P s) = 0" by (cases s) auto
  then show ?thesis using False by (simp add: rm_plus_atom del: rm.simps)
qed

lemma rm_shift:
  "bol_free r \<Longrightarrow> rm r (n + k) s = map (shift k) (rm r n s)"
proof (induction r n s arbitrary: k rule: rm.induct)
  case (1 n s)
  then show ?case by (simp add: shift_def)
next
  case (2 P n s)
  then show ?case by (simp add: shift_def split: list.splits)
next
  case (3 n s)
  then show ?case by simp
next
  case (4 n s)
  then show ?case by (simp add: shift_def)
next
  case (5 r1 r2 n s)
  have a: "rm r1 (n + k) s = map (shift k) (rm r1 n s)"
    using 5 by simp
  have b: "rm r2 (n1 + k) s1 = map (shift k) (rm r2 n1 s1)"
    if "(n1, s1, g1) \<in> set (rm r1 n s)" for n1 s1 g1
    using 5 that by simp
  show ?case
    unfolding rm.simps a map_map map_concat
    by (rule arg_cong [where f = concat], rule map_cong)
       (auto simp: b shift_def)
next
  case (6 r1 r2 n s)
  then show ?case by simp
next
  case (7 r n s)
  have a: "rm r (n + k) s = map (shift k) (rm r n s)"
    using 7 by simp
  have b: "rm (Star r) (n1 + k) s1 = map (shift k) (rm (Star r) n1 s1)"
    if "(n1, s1, g1) \<in> set (rm r n s)" "length s1 < length s" for n1 s1 g1
    using "7.IH"(2) [of "(n1, s1, g1)" n1 "(s1, g1)" s1 g1 k] that "7.prems" by simp
  have "concat (map (\<lambda>(n1, s1, g1).
                    if length s1 < length s
                    then map (\<lambda>(n2, s2, g2). (n2, s2, g1 @ g2)) (rm (Star r) n1 s1)
                    else []) (rm r (n + k) s))
      = map (shift k) (concat (map (\<lambda>(n1, s1, g1).
                    if length s1 < length s
                    then map (\<lambda>(n2, s2, g2). (n2, s2, g1 @ g2)) (rm (Star r) n1 s1)
                    else []) (rm r n s)))"
    unfolding a map_map map_concat
    by (rule arg_cong [where f = concat], rule map_cong)
       (auto simp: b shift_def simp del: rm.simps(7))
  then show ?case
    by (subst rm.simps(7), subst (2) rm.simps(7)) (simp add: shift_def)
next
  case (8 r n s)
  then show ?case by (auto simp: shift_def)
qed

section \<open>Properties of the scan\<close>

lemma finditer_from_miss:
  "rm r n (c # cs) = [] \<Longrightarrow> finditer_from r n (c # cs) = finditer_from r (Suc n) cs"
  by (subst finditer_from.simps) simp

lemma finditer_from_hit:
  assumes "first_result (rm r n s) = Some (e, s', gs)" and "length s' < length s"
  shows "finditer_from r n s =
           \<lparr>m_start = n, m_end = e, m_groups = gs\<rparr> # finditer_from r e s'"
proof -
  obtain xs where "rm r n s = (e, s', gs) # xs"
    using assms(1) by (cases "rm r n s") simp_all
  then show ?thesis using assms(2) by (subst finditer_from.simps) simp
qed


lemma finditer_from_shift:
  "bol_free r \<Longrightarrow> finditer_from r (n + k) s = map (shift_match k) (finditer_from r n s)"
proof (induction r n s rule: finditer_from.induct)
  case (1 r n s)
  have sh: "rm r (n + k) s = map (shift k) (rm r n s)"
    using "1.prems" by (rule rm_shift)
  show ?case
  proof (cases "rm r n s")
    case Nil
    show ?thesis
    proof (cases s)
      case Nil
      then show ?thesis using \<open>rm r n s = []\<close> sh
        by (subst finditer_from.simps, subst (2) finditer_from.simps) simp
    next
      case (Cons c cs)
      have "finditer_from r (Suc n + k) cs = map (shift_match k) (finditer_from r (Suc n) cs)"
        using "1.IH" \<open>rm r n s = []\<close> Cons "1.prems" by simp
      then show ?thesis using \<open>rm r n s = []\<close> sh Cons
        by (subst finditer_from.simps, subst (2) finditer_from.simps) simp
    qed
  next
    case (Cons x xs)
    obtain e s' gs where x: "x = (e, s', gs)" by (cases x)
    show ?thesis
    proof (cases "length s' < length s")
      case True
      have "finditer_from r (e + k) s' = map (shift_match k) (finditer_from r e s')"
        using "1.IH" Cons x True "1.prems" by simp
      then show ?thesis using Cons x sh True
        by (subst finditer_from.simps, subst (2) finditer_from.simps)
           (simp add: shift_def shift_match_def)
    next
      case False
      show ?thesis
      proof (cases s)
        case Nil
        then show ?thesis using Cons x sh False
          by (subst finditer_from.simps, subst (2) finditer_from.simps)
             (simp add: shift_def shift_match_def)
      next
        case c: (Cons c cs)
        have "finditer_from r (Suc n + k) cs = map (shift_match k) (finditer_from r (Suc n) cs)"
          using "1.IH" Cons x False c "1.prems" by simp
        then show ?thesis using Cons x sh False c
          by (subst finditer_from.simps, subst (2) finditer_from.simps)
             (simp add: shift_def shift_match_def)
      qed
    qed
  qed
qed

lemma caption_of_shift [simp]: "caption_of pn (shift_match k m) = caption_of pn m"
  by (simp add: caption_of_def shift_match_def group_def)

lemma bol_free_seqs [simp]: "bol_free (seqs rs) = (\<forall>r\<in>set rs. bol_free r)"
  by (induction rs) simp_all

lemma bol_free_lit [simp]: "bol_free (lit w)"
  by (simp add: lit_def chr_def)

lemma bol_free_figure [simp]: "bol_free (caption_re w)"
  by (simp add: caption_re_def plus_def opt_def chr_def one_of_def digit_def space_def dot_def)

lemmas re_defs = plus_def opt_def chr_def lit_def chr_ic_def lit_ic_def one_of_def
  digit_def space_def dot_def

lemma figure_line_first:
  assumes "post = [] \<or> hd post = newline"
  shows "first_result (rm figure_re 0 (''Figure 4.2: Replication topology'' @ post)) =
           Some (32, post, [''4.2'', ''Replication topology''])"
proof (cases post)
  case Nil
  then show ?thesis
    by (simp add: figure_re_def caption_re_def re_defs is_digit_def is_space_def newline_def)
next
  case (Cons c cs)
  then have "c = newline" using assms by simp
  then show ?thesis using Cons
    by (simp add: figure_re_def caption_re_def re_defs is_digit_def is_space_def newline_def)
qed

section \<open>Case-insensitive words and anchors\<close>

lemma rm_chr_ic [simp]:
  "rm (chr_ic c) n s =
     (case s of [] \<Rightarrow> [] | x # xs \<Rightarrow> if lower x = lower c then [(Suc n, xs, [])] else [])"
  by (simp add: chr_ic_def)

lemma rm_lit_ic:
  "rm (lit_ic w) n s =
     (if length w \<le> length s \<and> map lower (take (length w) s) = map lower w
      then [(n + length w, drop (length w) s, [])] else [])"
proof (induction w arbitrary: n s)
  case Nil
  then show ?case by (simp add: lit_ic_def)
next
  case (Cons c w)
  have step: "lit_ic (c # w) = Seq (chr_ic c) (lit_ic w)"
    by (simp add: lit_ic_def)
  show ?case
  proof (cases s)
    case Nil
    then show ?thesis by (simp add: step)
  next
    case (Cons x xs)
    then show ?thesis using Cons.IH [of "Suc n" xs] by (simp add: step)
  qed
qed

lemma map_lower_eq_iff:
  "map lower s = map lower w \<longleftrightarrow>
     length w \<le> length s \<and> map lower (take (length w) s) = map lower w
     \<and> length s \<le> length w"
proof
  assume a: "map lower s = map lower w"
  then have "length s = length w" by (rule map_eq_imp_length_eq)
  then show "length w \<le> length s \<and> map lower (take (length w) s) = map lower w
     \<and> length s \<le> length w" using a by simp
next
  assume "length w \<le> length s \<and> map lower (take (length w) s) = map lower w
     \<and> length s \<le> length w"
  then show "map lower s = map lower w" by (metis take_all)
qed

lemma rm_Seq_nil: "rm r1 n s = [] \<Longrightarrow> rm (Seq r1 r2) n s = []"
  by simp

lemma rm_Seq_Eps [simp]: "rm (Seq r Eps) n s = rm r n s"
proof -
  have "concat (map (\<lambda>(n1, s1, g1). [(n1, s1, g1)]) xs) = xs" for xs :: "mres list"
    by (induction xs) auto
  then show ?thesis by simp
qed

lemma rm_Seq_Bol [simp]: "rm (Seq Bol r) 0 s = rm r 0 s"
proof -
  have "map (\<lambda>(n2, s2, g2). (n2, s2, g2)) xs = xs" for xs :: "mres list"
    by (induction xs) auto
  then show ?thesis by simp
qed

lemma rm_anchored_word:
  assumes "newline \<notin> set s"
  shows "rm (seqs [Bol, lit_ic w, Eol]) 0 s =
           (if map lower s = map lower w then [(length w, [], [])] else [])"
proof -
  have nl: "drop (length w) s \<noteq> [newline]"
    using assms by (metis in_set_dropD list.set_intros(1))
  have un: "rm (seqs [Bol, lit_ic w, Eol]) 0 s =
          concat (map (\<lambda>(n1, s1, g1).
             map (\<lambda>(n2, s2, g2). (n2, s2, g1 @ g2)) (rm Eol n1 s1)) (rm (lit_ic w) 0 s))"
    by (simp only: seqs_Cons seqs_Nil rm_Seq_Bol, subst rm.simps(5), simp only: rm_Seq_Eps)
  show ?thesis
  proof (cases "length w \<le> length s \<and> map lower (take (length w) s) = map lower w")
    case False
    then have "map lower s \<noteq> map lower w" using map_lower_eq_iff by blast
    moreover have "rm (lit_ic w) 0 s = []" using False by (auto simp: rm_lit_ic)
    ultimately show ?thesis unfolding un by simp
  next
    case True
    then have r: "rm (lit_ic w) 0 s = [(0 + length w, drop (length w) s, [])]"
      by (simp add: rm_lit_ic)
    show ?thesis
    proof (cases "length s \<le> length w")
      case le: True
      then have "map lower s = map lower w" using True map_lower_eq_iff by blast
      then show ?thesis unfolding un r using le by simp
    next
      case gt: False
      then have "map lower s \<noteq> map lower w" using map_lower_eq_iff by blast
      then show ?thesis unfolding un r using gt nl by simp
    qed
  qed
qed

lemma re_match_two_words:
  assumes "newline \<notin> set line"
  shows "re_match (Alt (seqs [Bol, lit_ic w1, Eol]) (seqs [Bol, lit_ic w2, Eol])) line \<noteq> None
           \<longleftrightarrow> map lower line \<in> {map lower w1, map lower w2}"
proof -
  have "rm (Alt (seqs [Bol, lit_ic w1, Eol]) (seqs [Bol, lit_ic w2, Eol])) 0 line
          = rm (seqs [Bol, lit_ic w1, Eol]) 0 line @ rm (seqs [Bol, lit_ic w2, Eol]) 0 line"
    by (simp only: rm.simps(6))
  then show ?thesis
    unfolding re_match_def rm_anchored_word [OF assms]
    by (simp split: list.splits)
qed

lemma re_match_reference:
  assumes "newline \<notin> set line"
  shows "re_match reference_re line \<noteq> None \<longleftrightarrow>
           map lower line \<in> {map lower ''References'', map lower ''Bibliography''}"
  unfolding reference_re_def by (rule re_match_two_words [OF assms])

lemma lower_eq: "lower c = (if c \<in> set ''ABCDEFGHIJKLMNOPQRSTUVWXYZ'' then lower c else c)"
  by (simp add: lower_def)

lemma lower_not_space: "is_space c \<Longrightarrow> lower c = c"
  by (subst lower_eq) (auto simp: is_space_def)

lemma lower_not_digit: "is_digit c \<Longrightarrow> lower c = c"
  by (subst lower_eq) (auto simp: is_digit_def)

lemma strip_id:
  assumes "\<forall>c\<in>set s. \<not> is_space c"
  shows "strip s = s"
proof -
  have dw: "dropWhile is_space t = t" if "\<forall>c\<in>set t. \<not> is_space c" for t
    using that by (cases t) auto
  have 1: "dropWhile is_space s = s" using assms by (rule dw)
  have 2: "dropWhile is_space (rev s) = rev s" using assms by (intro dw) simp
  show ?thesis by (simp add: strip_def 1 2)
qed

lemma word_no_space:
  assumes "map lower line = map lower w" and "\<forall>d\<in>set w. \<not> is_space (lower d)"
  shows "\<forall>c\<in>set line. \<not> is_space c"
proof
  fix c assume c: "c \<in> set line"
  have "lower c \<in> set (map lower line)" using c by simp
  then have "lower c \<in> set (map lower w)" by (simp only: assms(1))
  then obtain d where d: "d \<in> set w" "lower c = lower d" by auto
  show "\<not> is_space c"
  proof
    assume sp: "is_space c"
    then have "lower c = c" by (rule lower_not_space)
    then have "is_space (lower d)" using sp d(2) by simp
    then show False using assms(2) d(1) by blast
  qed
qed

lemma references_letters: "\<forall>d\<in>set ''References''. \<not> is_space (lower d)"
  by (simp add: lower_def is_space_def)

lemma bibliography_letters: "\<forall>d\<in>set ''Bibliography''. \<not> is_space (lower d)"
  by (simp add: lower_def is_space_def)

lemma heading_word_no_space:
  assumes "map lower line \<in> {map lower ''References'', map lower ''Bibliography''}"
  shows "\<forall>c\<in>set line. \<not> is_space c"
proof -
  from assms consider (R) "map lower line = map lower ''References''"
    | (B) "map lower line = map lower ''Bibliography''" by blast
  then show ?thesis
  proof cases
    case R
    then show ?thesis using references_letters by (rule word_no_space)
  next
    case B
    then show ?thesis using bibliography_letters by (rule word_no_space)
  qed
qed

lemma heading_word_head:
  assumes "map lower line \<in> {map lower ''References'', map lower ''Bibliography''}"
  shows "\<exists>x xs. line = x # xs \<and> x \<noteq> CHR ''C'' \<and> \<not> is_digit x"
proof -
  from assms consider (R) "map lower line = map lower ''References''"
    | (B) "map lower line = map lower ''Bibliography''" by blast
  then have hdl: "hd (map lower line) = CHR ''r'' \<or> hd (map lower line) = CHR ''b''"
    by cases (simp_all add: lower_def)
  have "length line = length ''References'' \<or> length line = length ''Bibliography''"
    using assms map_eq_imp_length_eq [of lower line lower] by blast
  then obtain x xs where line: "line = x # xs" by (cases line) auto
  have x: "lower x = CHR ''r'' \<or> lower x = CHR ''b''" using hdl line by simp
  have "x \<noteq> CHR ''C''"
  proof
    assume "x = CHR ''C''"
    then have "lower x = CHR ''c''" by (simp add: lower_def)
    then show False using x by simp
  qed
  moreover have "\<not> is_digit x"
  proof
    assume d: "is_digit x"
    then have "lower x = x" by (rule lower_not_digit)
    then have "is_digit CHR ''r'' \<or> is_digit CHR ''b''" using x d by auto
    then show False by (simp add: is_digit_def)
  qed
  ultimately show ?thesis using line by blast
qed

lemma chapter_re_needs_C: "x \<noteq> CHR ''C'' \<Longrightarrow> re_match chapter_re (x # xs) = None"
proof -
  assume x: "x \<noteq> CHR ''C''"
  have "rm (Alt (lit ''Chapter'') (lit ''CHAPTER'')) 0 (x # xs) = []"
    using x by (simp add: rm_lit del: rm.simps(5,7))
  then have "rm chapter_re 0 (x # xs) = []"
    by (simp only: chapter_re_def seqs_Cons rm_Seq_Bol rm_Seq_nil)
  then show ?thesis by (simp add: re_match_def)
qed

lemma section_re_needs_digit: "\<not> is_digit x \<Longrightarrow> re_match section_re (x # xs) = None"
proof -
  assume x: "\<not> is_digit x"
  have "rm (plus digit) 0 (x # xs) = []"
    using x by (simp add: digit_def rm_plus_atom del: rm.simps(5,7))
  then have "rm (seqs [plus digit, chr CHR ''.'', Star (plus digit)]) 0 (x # xs) = []"
    by (simp only: seqs_Cons rm_Seq_nil)
  then have "rm (Group (seqs [plus digit, chr CHR ''.'', Star (plus digit)])) 0 (x # xs) = []"
    by (simp only: rm.simps(8) list.map)
  then have "rm section_re 0 (x # xs) = []"
    by (simp only: section_re_def seqs_Cons rm_Seq_Bol rm_Seq_nil)
  then show ?thesis by (simp add: re_match_def)
qed

lemmas pat_defs = chapter_re_def section_re_def reference_re_def appendix_re_def
  caption_re_def figure_re_def table_re_def equation_re_def locator_re_def number_re_def

lemmas char_defs = is_digit_def is_space_def newline_def lower_def

section \<open>Section headings\<close>

text \<open>
  C1. A line that begins with a dotted numeric sequence, whitespace and a title should
  yield a Section record whose number is the sequence and whose level is the number of
  components minus one; \<open>2.3.1 Write-Ahead Logs\<close> should yield number \<open>2.3.1\<close> and
  level 2. The section pattern has the dot outside the repeated group, so it accepts one
  dot at most: on the line \<open>2.3.1 Write-Ahead Logs\<close> no matcher fires and the
  classifier leaves its state as it was, with no Section record.
\<close>

theorem section_three_components_unmatched:
  "analyze_line page_num self ''2.3.1 Write-Ahead Logs'' = self"
  by (simp add: analyze_line_def re_match_def pat_defs re_defs char_defs)

section \<open>Pages without text\<close>

text \<open>
  C2. A page whose text extraction yields no text should contribute no record and raise
  nothing, in the classifier and in the chapter locator. The classifier skips a page
  whose text is \<open>None\<close> or empty. The locator handles the empty string (no record),
  but on \<open>None\<close> it hands the value to \<open>finditer\<close>, which raises: the whole scan
  ends with \<open>TypeError\<close>.
\<close>

theorem locator_no_text_raises:
  "find_chapters_with_details (\<lparr>extract_text = None, extract_words = ws\<rparr> # ps)
     = Inl TypeError
   \<and> scan_page \<lparr>extract_text = Some [], extract_words = ws\<rparr> page_num = Inr []
   \<and> analyze_pages (\<lparr>extract_text = None, extract_words = ws\<rparr> # ps) page_num self
       = analyze_pages ps (Suc page_num) self
   \<and> analyze_pages (\<lparr>extract_text = Some [], extract_words = ws\<rparr> # ps) page_num self
       = analyze_pages ps (Suc page_num) self"
  by (simp add: find_chapters_with_details_def scan_page_def finditer_def
        finditer_from.simps pat_defs re_defs)

section \<open>Reference headings\<close>

lemma reference_line_step:
  assumes "newline \<notin> set line"
  shows "references (analyze_line page_num self line) =
           (if map lower line \<in> {map lower ''References'', map lower ''Bibliography''}
            then references self @ [\<lparr>ref_title = line, ref_page = page_num\<rparr>]
            else references self)"
proof (cases "map lower line \<in> {map lower ''References'', map lower ''Bibliography''}")
  case True
  obtain x xs where line: "line = x # xs" and x: "x \<noteq> CHR ''C''" "\<not> is_digit x"
    using heading_word_head [OF True] by blast
  have c: "re_match chapter_re line = None"
    unfolding line using x(1) by (rule chapter_re_needs_C)
  have s: "re_match section_re line = None"
    unfolding line using x(2) by (rule section_re_needs_digit)
  obtain m where r: "re_match reference_re line = Some m"
    using re_match_reference [OF assms] True by auto
  have t: "strip line = line"
    using heading_word_no_space [OF True] by (rule strip_id)
  show ?thesis using True by (simp add: analyze_line_def c s r t)
next
  case False
  then have r: "re_match reference_re line = None"
    using re_match_reference [OF assms] by simp
  show ?thesis using False
    by (simp add: analyze_line_def r Let_def split: option.splits)
qed

lemma split_on_no_sep: "l \<in> set (split_on sep s) \<Longrightarrow> sep \<notin> set l"
proof (induction s arbitrary: l)
  case Nil
  then show ?case by simp
next
  case (Cons c cs)
  show ?case
  proof (cases "c = sep")
    case True
    then show ?thesis using Cons by auto
  next
    case False
    show ?thesis
    proof (cases "split_on sep cs")
      case Nil
      then show ?thesis using Cons.prems False by simp
    next
      case (Cons l0 ls)
      have "sep \<notin> set l0" using Cons.IH [of l0] Cons by simp
      moreover have "sep \<notin> set l'" if "l' \<in> set ls" for l'
        using Cons.IH [of l'] Cons that by simp
      ultimately show ?thesis using Cons.prems False Cons by auto
    qed
  qed
qed

lemma reference_records_Nil [simp]: "reference_records [] = []"
  by (simp add: reference_records_def)

lemma reference_records_append [simp]:
  "reference_records (xs @ ys) = reference_records xs @ reference_records ys"
  by (simp add: reference_records_def)

lemma reference_records_Cons:
  "reference_records ((n, l) # ls) =
     (if is_reference_heading l then \<lparr>ref_title = l, ref_page = n\<rparr> # reference_records ls
      else reference_records ls)"
  by (simp add: reference_records_def)

lemma references_fold_lines:
  assumes "\<forall>l\<in>set ls. newline \<notin> set l"
  shows "references (foldl (analyze_line n) self ls)
           = references self @ reference_records (map (Pair n) ls)"
  using assms
proof (induction ls arbitrary: self)
  case Nil
  then show ?case by simp
next
  case (Cons l ls)
  have nl: "newline \<notin> set l" using Cons.prems by simp
  have "references (foldl (analyze_line n) (analyze_line n self l) ls)
          = references (analyze_line n self l) @ reference_records (map (Pair n) ls)"
    using Cons.prems by (intro Cons.IH) simp
  then show ?case
    using reference_line_step [OF nl, of n self]
    by (simp add: reference_records_Cons is_reference_heading_def)
qed

lemma references_analyze_page_structure:
  "references (analyze_page_structure text n self)
     = references self @ reference_records (map (Pair n) (split_on newline text))"
  unfolding analyze_page_structure_def
  by (rule references_fold_lines) (simp add: split_on_no_sep)

lemma references_detect_figures_tables [simp]:
  "references (detect_figures_tables text n self) = references self"
  by (simp add: detect_figures_tables_def)

text \<open>
  C6. Over a whole run of the classifier, the reference list grows by exactly one
  record for every scanned line that is, ignoring case, exactly \<open>References\<close> or
  \<open>Bibliography\<close>, with the line as title and the number of its page, in scan order;
  a line with other text, such as \<open>See References below\<close>, adds none.
\<close>

theorem reference_headings_of_run:
  "references (analyze_pages pages page_num self)
     = references self @ reference_records (page_lines pages page_num)"
proof (induction pages arbitrary: page_num self)
  case Nil
  then show ?case by simp
next
  case (Cons p ps)
  show ?case
    by (simp add: Cons.IH references_analyze_page_structure split: option.splits)
qed

theorem reference_headings_of_run_witness:
  "references (analyze_pages
                 [\<lparr>extract_text = Some (''Intro'' @ [newline] @ ''references''),
                   extract_words = [] :: (string \<times> nat) list\<rparr>,
                  \<lparr>extract_text = Some ''See References below'', extract_words = []\<rparr>]
                 1 (init ''book.pdf''))
   = [\<lparr>ref_title = ''references'', ref_page = 1\<rparr>]"
  using reference_headings_of_run
          [of "[\<lparr>extract_text = Some (''Intro'' @ [newline] @ ''references''),
                 extract_words = [] :: (string \<times> nat) list\<rparr>,
                \<lparr>extract_text = Some ''See References below'', extract_words = []\<rparr>]"
              1 "init ''book.pdf''"]
  by (simp add: init_def reference_records_def is_reference_heading_def lower_def newline_def)

section \<open>Missing chapters\<close>

text \<open>
  C7. For a non-empty list of results, the missing-chapters diagnostic is the sorted
  list of the numbers from 1 to the largest chapter number found that are not among the
  chapter numbers found; for the chapters 1, 2, 4 and 5 it is \<open>[3]\<close>.
\<close>

theorem missing_chapters_gaps:
  assumes "results \<noteq> []"
  shows "reported (missing_chapters results) =
           sorted_list_of_set ({1 .. Max (found_chapters results)} - found_chapters results)
         \<and> sorted (reported (missing_chapters results))
         \<and> distinct (reported (missing_chapters results))
         \<and> set (reported (missing_chapters results)) =
             {n. 1 \<le> n \<and> n \<le> Max (found_chapters results) \<and> n \<notin> found_chapters results}"
proof -
  let ?F = "found_chapters results"
  let ?M = "{1 .. Max ?F} - ?F"
  have ne: "set (map fst results) \<noteq> {}" using assms by simp
  have eq: "reported (missing_chapters results) = sorted_list_of_set ?M"
  proof (cases "?M = {}")
    case True
    then have "missing_chapters results = None"
      using assms ne by (simp add: missing_chapters_def found_chapters_def Let_def)
    moreover have "sorted_list_of_set ?M = []"
      by (simp only: True sorted_list_of_set_empty)
    ultimately show ?thesis by (simp only: reported_def option.case)
  next
    case False
    then have "missing_chapters results = Some (sorted_list_of_set ?M)"
      using assms ne by (simp add: missing_chapters_def found_chapters_def Let_def)
    then show ?thesis by (simp add: reported_def)
  qed
  have fin: "finite ?M" by simp
  show ?thesis unfolding eq using fin by auto
qed

theorem missing_chapters_gaps_witness:
  "([(1, 0, None, [], []), (2, 3, None, [], []), (4, 7, None, [], []),
    (5, 9, None, [], [])] :: nat result list) \<noteq> []
   \<and> missing_chapters [(1, 0, None, [], []), (2, 3, None, [], []), (4, 7, None, [], []),
        (5, 9, None :: nat option, [], [])] = Some [3]
   \<and> sorted_list_of_set ({1 .. Max (found_chapters [(1, 0, None, [], []), (2, 3, None, [], []), (4, 7, None, [], []),
        (5, 9, None :: nat option, [], [])])} - found_chapters [(1, 0, None, [], []), (2, 3, None, [], []), (4, 7, None, [], []),
        (5, 9, None :: nat option, [], [])]) = [3]"
proof -
  let ?rs = "[(1, 0, None, [], []), (2, 3, None, [], []), (4, 7, None, [], []),
    (5, 9, None :: nat option, [], [])] :: nat result list"
  have ne: "?rs \<noteq> []" by simp
  have ev: "missing_chapters ?rs = Some [3]" by code_simp
  show ?thesis using ne ev missing_chapters_gaps [OF ne] by (simp add: reported_def)
qed

section \<open>Order of the locator's results\<close>

lemma match_result_page:
  "match_result page pn text m = Inr rs \<Longrightarrow> \<forall>r\<in>set rs. fst (snd r) = pn"
  by (auto simp: match_result_def Let_def split: option.splits if_splits)

lemma match_results_page:
  "match_results page pn text ms = Inr rs \<Longrightarrow> \<forall>r\<in>set rs. fst (snd r) = pn"
proof (induction ms arbitrary: rs)
  case Nil
  then show ?case by simp
next
  case (Cons m ms)
  from Cons.prems obtain r1 r2 where
    1: "match_result page pn text m = Inr r1" and
    2: "match_results page pn text ms = Inr r2" and rs: "rs = r1 @ r2"
    by (auto split: sum.splits)
  show ?case using match_result_page [OF 1] Cons.IH [OF 2] rs by auto
qed

lemma scan_page_page:
  "scan_page page pn = Inr rs \<Longrightarrow> \<forall>r\<in>set rs. fst (snd r) = pn"
  by (auto simp: scan_page_def split: option.splits dest: match_results_page)

lemma scan_pages_sorted:
  "scan_pages ps n = Inr rs \<Longrightarrow>
     sorted (map (\<lambda>r. fst (snd r)) rs) \<and> (\<forall>r\<in>set rs. n \<le> fst (snd r))"
proof (induction ps arbitrary: n rs)
  case Nil
  then show ?case by simp
next
  case (Cons p ps)
  from Cons.prems obtain r1 r2 where
    1: "scan_page p n = Inr r1" and 2: "scan_pages ps (Suc n) = Inr r2" and rs: "rs = r1 @ r2"
    by (auto split: sum.splits)
  have a: "\<forall>r\<in>set r1. fst (snd r) = n" using scan_page_page [OF 1] .
  have b: "sorted (map (\<lambda>r. fst (snd r)) r2)" "\<forall>r\<in>set r2. Suc n \<le> fst (snd r)"
    using Cons.IH [OF 2] by simp_all
  have "sorted (map (\<lambda>r. fst (snd r)) r1)"
    using a by (induction r1) auto
  then show ?case using a b rs
    by (auto simp: sorted_append) 
qed

lemma sorted_wrt_filter_nth:
  assumes "sorted_wrt R (filter P xs)" "i < j" "j < length xs" "P (xs ! i)" "P (xs ! j)"
  shows "R (xs ! i) (xs ! j)"
proof -
  have "xs = take j xs @ xs ! j # drop (Suc j) xs"
    using assms(3) by (simp add: id_take_nth_drop)
  moreover have "take j xs = take i (take j xs) @ (take j xs) ! i # drop (Suc i) (take j xs)"
    by (rule id_take_nth_drop) (use assms(2,3) in simp)
  moreover have "take j xs ! i = xs ! i" using assms(2) by simp
  ultimately obtain as bs cs where "xs = as @ xs ! i # bs @ xs ! j # cs"
    by (metis append.assoc append_Cons)
  then have "filter P xs = filter P as @ xs ! i # filter P bs @ xs ! j # filter P cs"
    using assms(4,5) by (metis filter.simps(2) filter_append)
  then show ?thesis using assms(1) by (simp add: sorted_wrt_append)
qed

text \<open>
  C10. In the list the chapter locator returns, two records with the same chapter
  number stand in ascending page order: the scan appends in page order and the final
  sort by chapter number is stable.
\<close>

theorem locator_equal_chapters_in_page_order:
  assumes "find_chapters_with_details pdf = Inr rs"
      and "i < j" and "j < length rs" and "fst (rs ! i) = fst (rs ! j)"
    shows "fst (snd (rs ! i)) \<le> fst (snd (rs ! j))"
proof -
  obtain xs where xs: "scan_pages pdf 0 = Inr xs" and rs: "rs = sort_key fst xs"
    using assms(1) by (auto simp: find_chapters_with_details_def split: sum.splits)
  let ?P = "\<lambda>y. fst y = fst (rs ! j)"
  have "sorted (map (\<lambda>r. fst (snd r)) (filter ?P xs))"
    using scan_pages_sorted [OF xs] by (simp add: sorted_filter)
  then have "sorted_wrt (\<lambda>a b. fst (snd a) \<le> fst (snd b)) (filter ?P rs)"
    unfolding rs sort_key_stable by (simp add: sorted_map)
  from sorted_wrt_filter_nth [OF this assms(2,3)] assms(4) show ?thesis by simp
qed

theorem locator_equal_chapters_in_page_order_witness:
  "find_chapters_with_details
      [\<lparr>extract_text = Some ''Chapter 2: Two'', extract_words = [] :: (string \<times> nat) list\<rparr>,
       \<lparr>extract_text = Some ''Chapter 1: One Chapter 2: Again'', extract_words = []\<rparr>]
     = Inr [(1, 1, None, ''Chapter 1: One Chapter 2: Again'', ''Chapter 1: ''),
            (2, 0, None, ''Chapter 2: Two'', ''Chapter 2: ''),
            (2, 1, None, ''Chapter 1: One Chapter 2: Again'', ''Chapter 2: '')]
   \<and> fst (snd ((2, 0, None :: nat option, ''Chapter 2: Two'', ''Chapter 2: '') :: nat result))
       \<le> fst (snd ((2, 1, None, ''Chapter 1: One Chapter 2: Again'', ''Chapter 2: '') :: nat result))"
proof -
  have ev: "find_chapters_with_details
      [\<lparr>extract_text = Some ''Chapter 2: Two'', extract_words = [] :: (string \<times> nat) list\<rparr>,
       \<lparr>extract_text = Some ''Chapter 1: One Chapter 2: Again'', extract_words = []\<rparr>]
     = Inr [(1, 1, None, ''Chapter 1: One Chapter 2: Again'', ''Chapter 1: ''),
            (2, 0, None, ''Chapter 2: Two'', ''Chapter 2: ''),
            (2, 1, None, ''Chapter 1: One Chapter 2: Again'', ''Chapter 2: '')]"
    by code_simp
  show ?thesis
    using ev locator_equal_chapters_in_page_order [OF ev, of 1 2] by simp
qed

section \<open>Chapter headings\<close>

lemma takeWhile_run:
  assumes "\<forall>x\<in>set xs. P x" and "ys = [] \<or> \<not> P (hd ys)"
  shows "takeWhile P (xs @ ys) = xs" and "dropWhile P (xs @ ys) = ys"
proof -
  have t: "takeWhile P ys = []" using assms(2) by (cases ys) auto
  have d: "dropWhile P ys = ys" using assms(2) by (cases ys) auto
  show "takeWhile P (xs @ ys) = xs" using assms(1) t by (simp add: takeWhile_append2)
  show "dropWhile P (xs @ ys) = ys" using assms(1) d by (simp add: dropWhile_append2)
qed

lemma first_plus_run:
  assumes "xs \<noteq> []" and "\<forall>x\<in>set xs. P x" and "ys = [] \<or> \<not> P (hd ys)"
  shows "first_result (rm (plus (Atom P)) n (xs @ ys)) = Some (n + length xs, ys, [])"
proof -
  have "P (hd (xs @ ys))" using assms(1,2) by (cases xs) auto
  then show ?thesis
    using assms(1) takeWhile_run [OF assms(2,3)] by (simp add: first_plus_atom del: rm.simps)
qed

lemma rm_plus_fail:
  assumes "s = [] \<or> \<not> P (hd s)"
  shows "rm (plus (Atom P)) n s = []"
proof -
  have "length (takeWhile P s) = 0" using assms by (cases s) auto
  then show ?thesis by (simp add: rm_plus_atom del: rm.simps)
qed

lemma first_caption_text:
  assumes "t \<noteq> []" and "newline \<notin> set t"
  shows "first_result (rm (seqs [Group (plus dot)]) n t) = Some (n + length t, [], [t])"
proof -
  have "first_result (rm (plus (Atom (\<lambda>x. x \<noteq> newline))) n (t @ [])) = Some (n + length t, [], [])"
    by (rule first_plus_run) (use assms in auto)
  then have "first_result (rm (plus dot) n t) = Some (n + length t, [], [])"
    by (simp add: dot_def del: rm.simps)
  from first_group [OF this] show ?thesis
    by (simp del: rm.simps)
qed

lemma strip_spaces:
  assumes "\<forall>c\<in>set s. is_space c"
  shows "strip s = []"
proof -
  have d: "dropWhile is_space s = []" using assms by (simp add: dropWhile_eq_Nil_conv)
  show ?thesis unfolding strip_def d by simp
qed

lemma strip_dropWhile: "strip (dropWhile is_space s) = strip s"
  by (simp add: strip_def)

lemma strip_lead:
  assumes "\<forall>c\<in>set ws. is_space c"
  shows "strip (ws @ s) = strip s"
proof -
  have "dropWhile is_space (ws @ s) = dropWhile is_space s"
    using assms by simp
  then show ?thesis by (simp add: strip_def)
qed

lemma first_space_then_text:
  assumes "t \<noteq> []" and "newline \<notin> set t"
  shows "\<exists>g. first_result (rm (seqs [Star space, Group (plus dot)]) n t)
                = Some (n + length t, [], [g]) \<and> strip g = strip t"
proof (cases "dropWhile is_space t = []")
  case False
  let ?m = "length (takeWhile is_space t)"
  have a: "first_result (rm (Star space) n t) = Some (n + ?m, dropWhile is_space t, [])"
    by (simp add: space_def first_star_atom del: rm.simps)
  have nl: "newline \<notin> set (dropWhile is_space t)"
    using assms(2) by (meson set_dropWhileD)
  have len: "?m + length (dropWhile is_space t) = length t"
    by (metis length_append takeWhile_dropWhile_id)
  have b: "first_result (rm (seqs [Group (plus dot)]) (n + ?m) (dropWhile is_space t))
             = Some (n + length t, [], [dropWhile is_space t])"
    using first_caption_text [OF False nl, of "n + ?m"] len by (simp add: add.assoc)
  have "first_result (rm (Seq (Star space) (seqs [Group (plus dot)])) n t)
          = Some (n + length t, [], [] @ [dropWhile is_space t])"
    using a b by (rule first_seq)
  then show ?thesis using strip_dropWhile by (auto simp del: rm.simps)
next
  case True
  then have all: "\<forall>c\<in>set t. is_space c" by (simp add: dropWhile_eq_Nil_conv)
  then have tw: "takeWhile is_space t = t" by simp
  obtain k where k: "length t = Suc k" using assms(1) by (cases t) auto
  have up: "rev [0 ..< Suc (Suc k)] = Suc k # k # rev [0 ..< k]" by simp
  have a: "rm (Star space) n t
            = (n + Suc k, [], []) # (n + k, drop k t, []) # map (\<lambda>j. (n + j, drop j t, [])) (rev [0 ..< k])"
    unfolding space_def rm_star_atom tw k up using k by simp
  have b: "rm (seqs [Group (plus dot)]) (n + Suc k) [] = []"
    by (simp add: dot_def rm_plus_fail del: rm.simps(5,7))
  have d: "drop k t \<noteq> []" "newline \<notin> set (drop k t)" "length (drop k t) = 1"
    using k assms(2) by (auto dest: in_set_dropD)
  have c: "first_result (rm (seqs [Group (plus dot)]) (n + k) (drop k t))
             = Some (n + length t, [], [drop k t])"
    using first_caption_text [OF d(1,2), of "n + k"] d(3) k by simp
  have "first_result (rm (Seq (Star space) (seqs [Group (plus dot)])) n t)
          = Some (n + length t, [], [] @ [drop k t])"
    using a b c by (rule first_seq_skip)
  moreover have "strip (drop k t) = strip t"
    using all by (metis in_set_dropD strip_spaces)
  ultimately show ?thesis by (auto simp del: rm.simps)
qed

lemma first_seqs_Cons:
  assumes "first_result (rm r n s) = Some (n1, s1, g1)"
      and "first_result (rm (seqs rs) n1 s1) = Some (n2, s2, g2)"
    shows "first_result (rm (seqs (r # rs)) n s) = Some (n2, s2, g1 @ g2)"
  unfolding seqs_Cons using assms by (rule first_seq)

lemma digit_not_space: "is_digit c \<Longrightarrow> \<not> is_space c"
  by (auto simp: is_digit_def is_space_def)

lemma roman_not_space: "c \<in> set ''IVXLC'' \<Longrightarrow> \<not> is_space c"
  by (auto simp: is_space_def)

lemma roman_not_digit: "c \<in> set ''IVXLC'' \<Longrightarrow> \<not> is_digit c"
  by (auto simp: is_digit_def)

lemma first_number_token:
  assumes "num \<noteq> []"
      and "(\<forall>c\<in>set num. is_digit c) \<or> (\<forall>c\<in>set num. c \<in> set ''IVXLC'')"
      and "sep = CHR ''.'' \<or> sep = CHR '':''"
  shows "first_result (rm (Group (Alt (plus digit) (plus (one_of ''IVXLC'')))) n (num @ sep # t))
           = Some (n + length num, sep # t, [num])"
proof -
  have sd: "\<not> is_digit sep" using assms(3) by (auto simp: is_digit_def)
  have sr: "sep \<notin> set ''IVXLC''" using assms(3) by auto
  have "first_result (rm (Alt (plus digit) (plus (one_of ''IVXLC''))) n (num @ sep # t))
          = Some (n + length num, sep # t, [])"
  proof (cases "\<forall>c\<in>set num. is_digit c")
    case True
    have "first_result (rm (plus (Atom is_digit)) n (num @ sep # t))
            = Some (n + length num, sep # t, [])"
      by (rule first_plus_run) (use assms(1) True sd in auto)
    then show ?thesis
      by (simp add: digit_def first_result_append del: rm.simps(5,7))
  next
    case False
    then have rom: "\<forall>c\<in>set num. c \<in> set ''IVXLC''" using assms(2) by blast
    obtain x xs where nx: "num = x # xs" using assms(1) by (cases num) auto
    have "x \<in> set ''IVXLC''" using rom unfolding nx by (meson list.set_intros(1))
    then have "\<not> is_digit x" by (rule roman_not_digit)
    then have "\<not> is_digit (hd (num @ sep # t))" unfolding nx by simp
    then have a: "rm (plus (Atom is_digit)) n (num @ sep # t) = []"
      by (intro rm_plus_fail) simp
    have b: "first_result (rm (plus (Atom (\<lambda>x. x \<in> set ''IVXLC''))) n (num @ sep # t))
            = Some (n + length num, sep # t, [])"
      by (rule first_plus_run) (use assms(1) rom sr in auto)
    show ?thesis using a b
      by (simp add: digit_def one_of_def del: rm.simps(5,7))
  qed
  from first_group [OF this] show ?thesis by simp
qed

lemma first_keyword:
  assumes "kw = ''Chapter'' \<or> kw = ''CHAPTER''"
  shows "first_result (rm (Alt (lit ''Chapter'') (lit ''CHAPTER'')) n (kw @ rest))
           = Some (n + 7, rest, [])"
  using assms by (auto simp: rm_lit simp del: rm.simps(5,7))

lemma chapter_re_match:
  assumes kw: "kw = ''Chapter'' \<or> kw = ''CHAPTER''"
      and ws: "ws \<noteq> []" "\<forall>c\<in>set ws. is_space c"
      and num: "num \<noteq> []"
               "(\<forall>c\<in>set num. is_digit c) \<or> (\<forall>c\<in>set num. c \<in> set ''IVXLC'')"
      and sep: "sep = CHR ''.'' \<or> sep = CHR '':''"
      and t: "t \<noteq> []" "newline \<notin> set t"
  shows "\<exists>e g. re_match chapter_re (kw @ ws @ num @ sep # t)
                  = Some \<lparr>m_start = 0, m_end = e, m_groups = [num, g]\<rparr>
               \<and> strip g = strip t"
proof -
  obtain g where
    g: "first_result (rm (seqs [Star space, Group (plus dot)]) (7 + length ws + length num + 1) t)
          = Some (7 + length ws + length num + 1 + length t, [], [g])"
    and sg: "strip g = strip t"
    using first_space_then_text [OF t] by blast
  let ?e = "7 + length ws + length num + 1 + length t"
  have s4: "first_result (rm (one_of ''.:'') (7 + length ws + length num) (sep # t))
              = Some (7 + length ws + length num + 1, t, [])"
    using sep by (auto simp: one_of_def)
  have r4: "first_result (rm (seqs [one_of ''.:'', Star space, Group (plus dot)])
                            (7 + length ws + length num) (sep # t)) = Some (?e, [], [] @ [g])"
    using s4 g by (rule first_seqs_Cons)
  have s3: "first_result (rm (Group (Alt (plus digit) (plus (one_of ''IVXLC''))))
                            (7 + length ws) (num @ sep # t))
              = Some (7 + length ws + length num, sep # t, [num])"
    using num sep by (rule first_number_token)
  have r3: "first_result (rm (seqs [Group (Alt (plus digit) (plus (one_of ''IVXLC''))),
                                one_of ''.:'', Star space, Group (plus dot)])
                            (7 + length ws) (num @ sep # t)) = Some (?e, [], [num] @ [] @ [g])"
    using s3 r4 by (rule first_seqs_Cons)
  obtain x xs where nx: "num = x # xs" using num(1) by (cases num) auto
  have "is_digit x \<or> x \<in> set ''IVXLC''"
    using num(2) unfolding nx by (meson list.set_intros(1))
  then have "\<not> is_space x" using digit_not_space roman_not_space by blast
  then have hn: "\<not> is_space (hd (num @ sep # t))" unfolding nx by simp
  have s2: "first_result (rm (plus (Atom is_space)) 7 (ws @ num @ sep # t))
              = Some (7 + length ws, num @ sep # t, [])"
    by (rule first_plus_run) (use ws hn in auto)
  then have s2': "first_result (rm (plus space) 7 (ws @ num @ sep # t))
              = Some (7 + length ws, num @ sep # t, [])"
    by (simp only: space_def)
  have r2: "first_result (rm (seqs [plus space, Group (Alt (plus digit) (plus (one_of ''IVXLC''))),
                                one_of ''.:'', Star space, Group (plus dot)])
                            7 (ws @ num @ sep # t)) = Some (?e, [], [] @ [num] @ [] @ [g])"
    using s2' r3 by (rule first_seqs_Cons)
  have s1: "first_result (rm (Alt (lit ''Chapter'') (lit ''CHAPTER'')) 0 (kw @ ws @ num @ sep # t))
              = Some (0 + 7, ws @ num @ sep # t, [])"
    using kw by (rule first_keyword)
  then have s1': "first_result (rm (Alt (lit ''Chapter'') (lit ''CHAPTER'')) 0 (kw @ ws @ num @ sep # t))
              = Some (7, ws @ num @ sep # t, [])"
    by (simp only: add_0)
  have r1: "first_result (rm (seqs [Alt (lit ''Chapter'') (lit ''CHAPTER''), plus space,
                                Group (Alt (plus digit) (plus (one_of ''IVXLC''))),
                                one_of ''.:'', Star space, Group (plus dot)])
                            0 (kw @ ws @ num @ sep # t))
              = Some (?e, [], [] @ [] @ [num] @ [] @ [g])"
    using s1' r2 by (rule first_seqs_Cons)
  have "rm chapter_re 0 (kw @ ws @ num @ sep # t)
          = rm (seqs [Alt (lit ''Chapter'') (lit ''CHAPTER''), plus space,
                      Group (Alt (plus digit) (plus (one_of ''IVXLC''))),
                      one_of ''.:'', Star space, Group (plus dot)])
               0 (kw @ ws @ num @ sep # t)"
    unfolding chapter_re_def seqs_Cons [of Bol] by (rule rm_Seq_Bol)
  then have "first_result (rm chapter_re 0 (kw @ ws @ num @ sep # t))
               = Some (?e, [], [] @ [] @ [num] @ [] @ [g])"
    using r1 by (simp only:)
  then have "first_result (rm chapter_re 0 (kw @ ws @ num @ sep # t)) = Some (?e, [], [num, g])"
    by (simp only: append_Nil append_Cons)
  then have "re_match chapter_re (kw @ ws @ num @ sep # t)
               = Some \<lparr>m_start = 0, m_end = ?e, m_groups = [num, g]\<rparr>"
    by (simp only: re_match_first option.map prod.case)
  then show ?thesis using sg by blast
qed

text \<open>
  C8 (amended). A line is classified as a Chapter heading when it begins with
  \<open>Chapter\<close> or \<open>CHAPTER\<close>, then whitespace, then a number token (decimal digits, or
  roman numerals over I, V, X, L, C), then \<open>.\<close> or \<open>:\<close>, then optional whitespace,
  then a non-empty title: the record carries the number token and the stripped title,
  and becomes the current chapter. Whitespace after the separator is not required.
\<close>

theorem chapter_heading_accepted:
  assumes "kw = ''Chapter'' \<or> kw = ''CHAPTER''"
      and "ws \<noteq> []" and "\<forall>c\<in>set ws. is_space c"
      and "num \<noteq> []"
      and "(\<forall>c\<in>set num. is_digit c) \<or> (\<forall>c\<in>set num. c \<in> set ''IVXLC'')"
      and "sep = CHR ''.'' \<or> sep = CHR '':''"
      and "\<forall>c\<in>set ws'. is_space c"
      and "title \<noteq> []"
      and "newline \<notin> set (ws' @ title)"
  shows "analyze_line page_num self (kw @ ws @ num @ sep # ws' @ title) =
           self\<lparr>current_chapter := Some (length (chapters self)),
                chapters := chapters self @
                  [\<lparr>ch_number = num, ch_title = strip title, ch_page = page_num,
                    ch_sections = []\<rparr>]\<rparr>"
proof -
  have t: "ws' @ title \<noteq> []" using assms(8) by simp
  obtain e g where
    m: "re_match chapter_re (kw @ ws @ num @ sep # ws' @ title)
          = Some \<lparr>m_start = 0, m_end = e, m_groups = [num, g]\<rparr>"
    and g: "strip g = strip (ws' @ title)"
    using chapter_re_match [OF assms(1-6) t assms(9)] by blast
  have "strip g = strip title" using g strip_lead [OF assms(7)] by simp
  then show ?thesis by (simp add: analyze_line_def m group_def)
qed

theorem chapter_heading_accepted_witness:
  "analyze_line 4 (init ''book.pdf'') ''CHAPTER IV. Storage'' =
     (init ''book.pdf'')
       \<lparr>current_chapter := Some 0,
        chapters := [\<lparr>ch_number = ''IV'', ch_title = ''Storage'', ch_page = 4,
                      ch_sections = []\<rparr>]\<rparr>"
  using chapter_heading_accepted [of "''CHAPTER''" "'' ''" "''IV''" "CHR ''.''" "'' ''"
          "''Storage''" 4 "init ''book.pdf''"]
  by (simp add: is_space_def newline_def init_def strip_def)

text \<open>
  The claim as stated fails: the line \<open>Chapter 3:Title\<close>, with no whitespace after the
  separator, produces a Chapter record.
\<close>

theorem chapter_without_space_counterexample:
  "chapters (analyze_line 1 (init ''book.pdf'') ''Chapter 3:Title'') =
     [\<lparr>ch_number = ''3'', ch_title = ''Title'', ch_page = 1, ch_sections = []\<rparr>]"
  by (simp add: analyze_line_def re_match_def chapter_re_def plus_def lit_def chr_def
        one_of_def digit_def space_def dot_def is_digit_def is_space_def newline_def
        init_def strip_def group_def)

section \<open>Sections and their chapters\<close>

lemma core_analyze_line:
  "core (analyze_line n self l) = line_step (core self) (n, l)"
  by (simp add: core_def analyze_line_def chapter_of_def section_of_def Let_def
        split: option.splits)

lemma core_analyze_page_structure:
  "core (analyze_page_structure text n self)
     = foldl line_step (core self) (map (Pair n) (split_on newline text))"
proof -
  have "core (foldl (analyze_line n) self ls) = foldl line_step (core self) (map (Pair n) ls)"
    for ls
    by (induction ls arbitrary: self) (simp_all add: core_analyze_line)
  then show ?thesis by (simp add: analyze_page_structure_def)
qed

lemma core_detect_figures_tables [simp]:
  "core (detect_figures_tables text n self) = core self"
  by (simp add: core_def detect_figures_tables_def)

lemma core_analyze_pages:
  "core (analyze_pages pages n self) = foldl line_step (core self) (page_lines pages n)"
proof (induction pages arbitrary: n self)
  case Nil
  then show ?case by simp
next
  case (Cons p ps)
  show ?case
    by (simp add: Cons.IH core_analyze_page_structure split: option.splits)
qed

lemma all_sections_Cons:
  "all_sections ((n, l) # ls) =
     (case section_of n l of None \<Rightarrow> all_sections ls | Some sec \<Rightarrow> sec # all_sections ls)"
  by (simp add: all_sections_def split: option.splits)

lemma all_sections_Nil [simp]: "all_sections [] = []"
  by (simp add: all_sections_def)

lemma section_of_chapter: "chapter_of n l = Some c \<Longrightarrow> section_of n l = None"
  by (auto simp: chapter_of_def section_of_def)

lemma chapter_of_sections: "chapter_of n l = Some c \<Longrightarrow> ch_sections c = []"
  by (auto simp: chapter_of_def)

lemma until_Cons:
  "sections_until_next_chapter ((n, l) # ls) =
     (case chapter_of n l of
        Some c \<Rightarrow> []
      | None \<Rightarrow> (case section_of n l of
                   None \<Rightarrow> sections_until_next_chapter ls
                 | Some sec \<Rightarrow> sec # sections_until_next_chapter ls))"
  by (simp add: sections_until_next_chapter_def all_sections_Cons split: option.splits)

lemma sections_fold:
  "fst (snd (foldl line_step (chs, secs, cur) ls)) = secs @ all_sections ls"
proof (induction ls arbitrary: chs secs cur)
  case Nil
  then show ?case by simp
next
  case (Cons e ls)
  obtain n l where e: "e = (n, l)" by (cases e)
  show ?case
    by (simp add: e Cons.IH all_sections_Cons section_of_chapter split: option.splits)
qed

lemma chapters_fold_current:
  "fst (foldl line_step (ys @ [y], secs, Some (length ys)) ls)
     = ys @ [y\<lparr>ch_sections := ch_sections y @ sections_until_next_chapter ls\<rparr>]
          @ attached_chapters ls"
proof (induction ls arbitrary: ys y secs)
  case Nil
  then show ?case by (simp add: sections_until_next_chapter_def)
next
  case (Cons e ls)
  obtain n l where e: "e = (n, l)" by (cases e)
  show ?case
  proof (cases "chapter_of n l")
    case (Some c)
    have "fst (foldl line_step ((ys @ [y]) @ [c], secs, Some (length (ys @ [y]))) ls)
            = (ys @ [y]) @ [c\<lparr>ch_sections := ch_sections c @ sections_until_next_chapter ls\<rparr>]
                @ attached_chapters ls"
      by (rule Cons.IH)
    then show ?thesis
      using Some chapter_of_sections [OF Some] by (simp add: e until_Cons)
  next
    case None
    show ?thesis
    proof (cases "section_of n l")
      case no: None
      then show ?thesis using None Cons.IH by (simp add: e until_Cons)
    next
      case (Some sec)
      have "fst (foldl line_step
                   (ys @ [y\<lparr>ch_sections := ch_sections y @ [sec]\<rparr>], secs @ [sec],
                    Some (length ys)) ls)
              = ys @ [(y\<lparr>ch_sections := ch_sections y @ [sec]\<rparr>)
                        \<lparr>ch_sections := ch_sections (y\<lparr>ch_sections := ch_sections y @ [sec]\<rparr>)
                                         @ sections_until_next_chapter ls\<rparr>]
                   @ attached_chapters ls"
        by (rule Cons.IH)
      then show ?thesis using None Some by (simp add: e until_Cons)
    qed
  qed
qed

lemma chapters_fold_start:
  "fst (foldl line_step ([], secs, None) ls) = attached_chapters ls"
proof (induction ls arbitrary: secs)
  case Nil
  then show ?case by simp
next
  case (Cons e ls)
  obtain n l where e: "e = (n, l)" by (cases e)
  show ?case
  proof (cases "chapter_of n l")
    case (Some c)
    have "fst (foldl line_step ([] @ [c], secs, Some (length ([] :: chapter_rec list))) ls)
            = [] @ [c\<lparr>ch_sections := ch_sections c @ sections_until_next_chapter ls\<rparr>]
                @ attached_chapters ls"
      by (rule chapters_fold_current)
    then show ?thesis
      using Some chapter_of_sections [OF Some] by (simp add: e)
  next
    case None
    then show ?thesis using Cons.IH by (simp add: e split: option.splits)
  qed
qed

text \<open>
  C4. The line \<open>Chapter 3. Storage Engines\<close> yields a Chapter record with number
  \<open>3\<close> and title \<open>Storage Engines\<close>. Over a whole document, scanned by a fresh
  classifier, each Chapter record ends up with exactly the Section records of the lines
  scanned after it and before the next Chapter line (across page borders), every Section
  record is in the global section list, and the sections scanned before the first
  Chapter line are in the global list only.
\<close>

theorem sections_attach_to_latest_chapter:
  "chapter_of page_num ''Chapter 3. Storage Engines''
     = Some \<lparr>ch_number = ''3'', ch_title = ''Storage Engines'', ch_page = page_num,
             ch_sections = []\<rparr>
   \<and> chapters (analyze_pages pages 1 (init path)) = attached_chapters (page_lines pages 1)
   \<and> sections (analyze_pages pages 1 (init path)) = all_sections (page_lines pages 1)"
proof -
  have c0: "core (init path) = ([], [], None)"
    by (simp add: core_def init_def)
  have "fst (core (analyze_pages pages 1 (init path))) = attached_chapters (page_lines pages 1)"
    unfolding core_analyze_pages c0 by (rule chapters_fold_start)
  then have a: "chapters (analyze_pages pages 1 (init path)) = attached_chapters (page_lines pages 1)"
    by (simp add: core_def)
  have "fst (snd (core (analyze_pages pages 1 (init path)))) = [] @ all_sections (page_lines pages 1)"
    unfolding core_analyze_pages c0 by (rule sections_fold)
  then have b: "sections (analyze_pages pages 1 (init path)) = all_sections (page_lines pages 1)"
    by (simp add: core_def)
  have c: "chapter_of page_num ''Chapter 3. Storage Engines''
     = Some \<lparr>ch_number = ''3'', ch_title = ''Storage Engines'', ch_page = page_num,
             ch_sections = []\<rparr>"
    by (simp add: chapter_of_def re_match_def chapter_re_def plus_def lit_def chr_def
        one_of_def digit_def space_def dot_def is_digit_def is_space_def newline_def
        strip_def group_def)
  show ?thesis using a b c by simp
qed

section \<open>Figure captions\<close>

lemma first_result_map:
  "first_result (map f xs) = map_option f (first_result xs)"
  by (cases xs) simp_all

lemma figure_line_first_at:
  assumes "post = [] \<or> hd post = newline"
  shows "first_result (rm figure_re k (''Figure 4.2: Replication topology'' @ post)) =
           Some (32 + k, post, [''4.2'', ''Replication topology''])"
proof -
  have "rm figure_re (0 + k) (''Figure 4.2: Replication topology'' @ post)
          = map (shift k) (rm figure_re 0 (''Figure 4.2: Replication topology'' @ post))"
    unfolding figure_re_def by (rule rm_shift) (rule bol_free_figure)
  then have "first_result (rm figure_re k (''Figure 4.2: Replication topology'' @ post))
          = map_option (shift k)
              (first_result (rm figure_re 0 (''Figure 4.2: Replication topology'' @ post)))"
    by (simp only: first_result_map add_0)
  then show ?thesis
    by (simp only: figure_line_first [OF assms] option.map shift_def fst_conv snd_conv)
qed

lemma figures_analyze_line [simp]: "figures (analyze_line n self l) = figures self"
  by (simp add: analyze_line_def Let_def split: option.splits)

lemma figures_analyze_page_structure [simp]:
  "figures (analyze_page_structure text n self) = figures self"
proof -
  have "figures (foldl (analyze_line n) self ls) = figures self" for ls
    by (induction ls arbitrary: self) simp_all
  then show ?thesis by (simp add: analyze_page_structure_def)
qed

lemma rm_position:
  "(e, s', g) \<in> set (rm r n s) \<Longrightarrow> n \<le> e \<and> s' = drop (e - n) s"
proof (induction r n s arbitrary: e s' g rule: rm.induct)
  case (1 n s)
  then show ?case by simp
next
  case (2 P n s)
  then show ?case by (auto split: list.splits if_splits)
next
  case (3 n s)
  then show ?case by (auto split: if_splits)
next
  case (4 n s)
  then show ?case by (auto split: if_splits)
next
  case (5 r1 r2 n s)
  from "5.prems" obtain n1 s1 g1 g2 where
    a: "(n1, s1, g1) \<in> set (rm r1 n s)" and b: "(e, s', g2) \<in> set (rm r2 n1 s1)"
    by auto
  have 1: "n \<le> n1 \<and> s1 = drop (n1 - n) s" using "5.IH"(1) [OF a] .
  have 2: "n1 \<le> e \<and> s' = drop (e - n1) s1" using "5.IH"(2) [OF a refl refl b] .
  show ?case using 1 2 by simp
next
  case (6 r1 r2 n s)
  then show ?case by auto
next
  case (7 r n s)
  from "7.prems" consider (stop) "e = n" "s' = s"
    | (iter) n1 s1 g1 g2 where "(n1, s1, g1) \<in> set (rm r n s)" "length s1 < length s"
        "(e, s', g2) \<in> set (rm (Star r) n1 s1)"
    by (subst (asm) rm.simps(7)) (auto split: if_splits simp del: rm.simps)
  then show ?case
  proof cases
    case stop
    then show ?thesis by simp
  next
    case iter
    have 1: "n \<le> n1 \<and> s1 = drop (n1 - n) s" using "7.IH"(1) [OF iter(1)] .
    have 2: "n1 \<le> e \<and> s' = drop (e - n1) s1"
      using "7.IH"(2) [OF iter(1) refl refl iter(2,3)] .
    show ?thesis using 1 2 by simp
  qed
next
  case (8 r n s)
  then show ?case by auto
qed

lemma finditer_from_Nil [simp]: "finditer_from r n [] = (case rm r n [] of [] \<Rightarrow> [] | (e, s', gs) # _ \<Rightarrow> [\<lparr>m_start = n, m_end = e, m_groups = gs\<rparr>])"
  by (subst finditer_from.simps) (simp split: list.splits)

lemma finditer_from_empty_hit:
  assumes "rm r n (c # cs) = (e, s', gs) # xs" and "\<not> length s' < length (c # cs)"
  shows "finditer_from r n (c # cs) =
           \<lparr>m_start = n, m_end = e, m_groups = gs\<rparr> # finditer_from r (Suc n) cs"
  using assms by (subst finditer_from.simps) simp

lemma finditer_from_starts:
  "m \<in> set (finditer_from r n s) \<Longrightarrow> n \<le> m_start m"
proof (induction r n s rule: finditer_from.induct)
  case (1 r n s)
  show ?case
  proof (cases "rm r n s")
    case Nil
    show ?thesis
    proof (cases s)
      case n: Nil
      then show ?thesis using "1.prems" Nil by simp
    next
      case (Cons c cs)
      have "finditer_from r n s = finditer_from r (Suc n) cs"
        using Nil unfolding Cons by (rule finditer_from_miss)
      then have "m \<in> set (finditer_from r (Suc n) cs)" using "1.prems" by simp
      then have "Suc n \<le> m_start m" by (rule "1.IH"(1) [OF Nil Cons])
      then show ?thesis by simp
    qed
  next
    case (Cons x xs)
    obtain e s' gs where x: "x = (e, s', gs)" by (cases x)
    have p: "n \<le> e" using rm_position [of e s' gs r n s] Cons x by simp
    show ?thesis
    proof (cases "length s' < length s")
      case True
      have "first_result (rm r n s) = Some (e, s', gs)" using Cons x by simp
      then have "finditer_from r n s
                   = \<lparr>m_start = n, m_end = e, m_groups = gs\<rparr> # finditer_from r e s'"
        using True by (rule finditer_from_hit)
      then consider "m_start m = n" | "m \<in> set (finditer_from r e s')"
        using "1.prems" by auto
      then show ?thesis
      proof cases
        case 1
        then show ?thesis by simp
      next
        case 2
        then have "e \<le> m_start m"
          by (rule "1.IH"(2) [OF Cons x [symmetric] refl True])
        then show ?thesis using p by simp
      qed
    next
      case False
      show ?thesis
      proof (cases s)
        case Nil
        then show ?thesis using "1.prems" Cons x by simp
      next
        case c: (Cons c cs)
        have "finditer_from r n s
                = \<lparr>m_start = n, m_end = e, m_groups = gs\<rparr> # finditer_from r (Suc n) cs"
          using Cons x False unfolding c by (intro finditer_from_empty_hit) simp_all
        then consider "m_start m = n" | "m \<in> set (finditer_from r (Suc n) cs)"
          using "1.prems" by auto
        then show ?thesis
        proof cases
          case 1
          then show ?thesis by simp
        next
          case 2
          then have "Suc n \<le> m_start m"
            by (rule "1.IH"(3) [OF Cons x [symmetric] refl False c])
          then show ?thesis by simp
        qed
      qed
    qed
  qed
qed

lemma finditer_split:
  "n \<le> k \<Longrightarrow> k \<le> n + length s \<Longrightarrow>
   (\<forall>m\<in>set (finditer_from r n s). m_start m < k \<longrightarrow> m_end m \<le> k) \<Longrightarrow>
   finditer_from r n s
     = filter (\<lambda>m. m_start m < k) (finditer_from r n s) @ finditer_from r k (drop (k - n) s)"
proof (induction r n s rule: finditer_from.induct)
  case (1 r n s)
  show ?case
  proof (cases "n = k")
    case True
    have "\<not> m_start m < k" if "m \<in> set (finditer_from r n s)" for m
      using finditer_from_starts [OF that] True by simp
    then have "filter (\<lambda>m. m_start m < k) (finditer_from r n s) = []"
      unfolding filter_empty_conv by blast
    then show ?thesis using True by simp
  next
    case False
    then have nk: "n < k" using "1.prems"(1) by simp
    then obtain c cs where s: "s = c # cs" using "1.prems"(2) by (cases s) auto
    have "k - n = Suc (k - Suc n)" using nk by simp
    then have dr: "drop (k - n) s = drop (k - Suc n) cs"
      by (simp add: s)
    show ?thesis
    proof (cases "rm r n s")
      case Nil
      have F: "finditer_from r n s = finditer_from r (Suc n) cs"
        using Nil unfolding s by (rule finditer_from_miss)
      have "finditer_from r (Suc n) cs
              = filter (\<lambda>m. m_start m < k) (finditer_from r (Suc n) cs)
                  @ finditer_from r k (drop (k - Suc n) cs)"
      proof (rule "1.IH"(1) [OF Nil s])
        show "Suc n \<le> k" using nk by simp
        show "k \<le> Suc n + length cs" using "1.prems"(2) s by simp
        show "\<forall>m\<in>set (finditer_from r (Suc n) cs). m_start m < k \<longrightarrow> m_end m \<le> k"
          using "1.prems"(3) F by simp
      qed
      then show ?thesis unfolding F dr .
    next
      case (Cons x xs)
      obtain e s' gs where x: "x = (e, s', gs)" by (cases x)
      have p: "n \<le> e \<and> s' = drop (e - n) s"
        using rm_position [of e s' gs r n s] Cons x by simp
      let ?m0 = "\<lparr>m_start = n, m_end = e, m_groups = gs\<rparr>"
      show ?thesis
      proof (cases "length s' < length s")
        case True
        have "first_result (rm r n s) = Some (e, s', gs)" using Cons x by simp
        then have F: "finditer_from r n s = ?m0 # finditer_from r e s'"
          using True by (rule finditer_from_hit)
        have ek: "e \<le> k" using "1.prems"(3) F nk by simp
        have "finditer_from r e s'
                = filter (\<lambda>m. m_start m < k) (finditer_from r e s')
                    @ finditer_from r k (drop (k - e) s')"
        proof (rule "1.IH"(2) [OF Cons x [symmetric] refl True])
          show "e \<le> k" by (rule ek)
          show "k \<le> e + length s'" using "1.prems"(2) p ek by simp
          show "\<forall>m\<in>set (finditer_from r e s'). m_start m < k \<longrightarrow> m_end m \<le> k"
            using "1.prems"(3) F by simp
        qed
        moreover have "drop (k - e) s' = drop (k - n) s"
          using p ek by simp
        ultimately show ?thesis unfolding F using nk by simp
      next
        case False
        have F: "finditer_from r n s = ?m0 # finditer_from r (Suc n) cs"
          using Cons x False unfolding s by (intro finditer_from_empty_hit) simp_all
        have "finditer_from r (Suc n) cs
                = filter (\<lambda>m. m_start m < k) (finditer_from r (Suc n) cs)
                    @ finditer_from r k (drop (k - Suc n) cs)"
        proof (rule "1.IH"(3) [OF Cons x [symmetric] refl False s])
          show "Suc n \<le> k" using nk by simp
          show "k \<le> Suc n + length cs" using "1.prems"(2) s by simp
          show "\<forall>m\<in>set (finditer_from r (Suc n) cs). m_start m < k \<longrightarrow> m_end m \<le> k"
            using "1.prems"(3) F by simp
        qed
        then show ?thesis unfolding F dr using nk by simp
      qed
    qed
  qed
qed

lemma finditer_figure_line_at:
  assumes "\<forall>m\<in>set (finditer figure_re (pre @ ''Figure 4.2: Replication topology'' @ post)).
             m_start m < length pre \<longrightarrow> m_end m \<le> length pre"
      and "post = [] \<or> hd post = newline"
  shows "map (caption_of page_num)
           (finditer figure_re (pre @ ''Figure 4.2: Replication topology'' @ post))
         = map (caption_of page_num)
             (filter (\<lambda>m. m_start m < length pre)
                (finditer figure_re (pre @ ''Figure 4.2: Replication topology'' @ post)))
           @ \<lparr>cap_number = ''4.2'', cap_caption = ''Replication topology'', cap_page = page_num\<rparr>
             # map (caption_of page_num) (finditer figure_re post)"
proof -
  define L where "L = ''Figure 4.2: Replication topology''"
  define body where "body = pre @ L @ post"
  let ?k = "length pre"
  have sp: "finditer_from figure_re 0 body
              = filter (\<lambda>m. m_start m < ?k) (finditer_from figure_re 0 body)
                  @ finditer_from figure_re ?k (drop (?k - 0) body)"
  proof (rule finditer_split)
    show "0 \<le> ?k" by simp
    show "?k \<le> 0 + length body" by (simp add: body_def)
    show "\<forall>m\<in>set (finditer_from figure_re 0 body). m_start m < ?k \<longrightarrow> m_end m \<le> ?k"
      using assms(1) by (simp add: finditer_def body_def L_def)
  qed
  have dr: "drop (?k - 0) body = L @ post" by (simp add: body_def)
  have hit: "finditer_from figure_re ?k (L @ post)
               = \<lparr>m_start = ?k, m_end = 32 + ?k, m_groups = [''4.2'', ''Replication topology'']\<rparr>
                   # finditer_from figure_re (32 + ?k) post"
    unfolding L_def
    by (rule finditer_from_hit [OF figure_line_first_at [OF assms(2)]]) simp
  have "finditer_from figure_re (0 + (32 + ?k)) post
              = map (shift_match (32 + ?k)) (finditer_from figure_re 0 post)"
    unfolding figure_re_def by (rule finditer_from_shift) (rule bol_free_figure)
  then have sh: "finditer_from figure_re (32 + ?k) post
              = map (shift_match (32 + ?k)) (finditer_from figure_re 0 post)"
    by simp
  have cap: "caption_of page_num
               \<lparr>m_start = ?k, m_end = 32 + ?k, m_groups = [''4.2'', ''Replication topology'']\<rparr>
             = \<lparr>cap_number = ''4.2'', cap_caption = ''Replication topology'',
                cap_page = page_num\<rparr>"
    by (simp add: caption_of_def group_def strip_def is_space_def)
  have split: "finditer_from figure_re 0 body
          = filter (\<lambda>m. m_start m < ?k) (finditer_from figure_re 0 body)
            @ \<lparr>m_start = ?k, m_end = 32 + ?k, m_groups = [''4.2'', ''Replication topology'']\<rparr>
              # map (shift_match (32 + ?k)) (finditer_from figure_re 0 post)"
    using sp unfolding dr hit sh .
  have "map (caption_of page_num) (finditer_from figure_re 0 body)
          = map (caption_of page_num)
              (filter (\<lambda>m. m_start m < ?k) (finditer_from figure_re 0 body))
            @ caption_of page_num
                \<lparr>m_start = ?k, m_end = 32 + ?k, m_groups = [''4.2'', ''Replication topology'']\<rparr>
              # map (caption_of page_num) (finditer_from figure_re 0 post)"
    using arg_cong [OF split, of "map (caption_of page_num)"]
    by (simp only: map_append list.simps(9) map_map o_def caption_of_shift)
  then show ?thesis unfolding cap body_def L_def finditer_def .
qed

text \<open>
  C5 (amended). When a page text contains \<open>Figure 4.2: Replication topology\<close> up to the
  end of a line, and no match of the figure pattern that begins before it runs into it,
  the classifier gives for it exactly one Figure record, with number \<open>4.2\<close> and caption
  \<open>Replication topology\<close> (the caption ends at the end of the line). The Figure records
  of the page are those of the matches that begin before the line, then this record, then
  those of the rest of the page. The line-level matchers have no part in this.
\<close>

theorem figure_caption_line:
  assumes "\<forall>m\<in>set (finditer figure_re (pre @ ''Figure 4.2: Replication topology'' @ post)).
             m_start m < length pre \<longrightarrow> m_end m \<le> length pre"
      and "post = [] \<or> hd post = newline"
  shows "figures (analyze_pages
                    [\<lparr>extract_text = Some (pre @ ''Figure 4.2: Replication topology'' @ post),
                      extract_words = ws\<rparr>] page_num self)
         = figures self
             @ map (caption_of page_num)
                 (filter (\<lambda>m. m_start m < length pre)
                    (finditer figure_re (pre @ ''Figure 4.2: Replication topology'' @ post)))
             @ \<lparr>cap_number = ''4.2'', cap_caption = ''Replication topology'',
                cap_page = page_num\<rparr>
             # map (caption_of page_num) (finditer figure_re post)"
  using finditer_figure_line_at [OF assms, of page_num]
  by (simp add: detect_figures_tables_def)

text \<open>
  An earlier caption on the page does not disturb the line: the page text
  \<open>Figure 4.1: Log layout\<close>, line break, \<open>Figure 4.2: Replication topology\<close> gives both
  records.
\<close>

theorem figure_caption_line_witness:
  "figures (analyze_pages
              [\<lparr>extract_text = Some ((''Figure 4.1: Log layout'' @ [newline])
                                       @ ''Figure 4.2: Replication topology'' @ []),
                extract_words = [] :: (string \<times> nat) list\<rparr>] 5 (init ''book.pdf''))
   = [\<lparr>cap_number = ''4.1'', cap_caption = ''Log layout'', cap_page = 5\<rparr>,
      \<lparr>cap_number = ''4.2'', cap_caption = ''Replication topology'', cap_page = 5\<rparr>]"
proof -
  let ?pre = "''Figure 4.1: Log layout'' @ [newline]"
  let ?F = "finditer figure_re (?pre @ ''Figure 4.2: Replication topology'' @ [])"
  have ev: "?F = [\<lparr>m_start = 0, m_end = 22, m_groups = [''4.1'', ''Log layout'']\<rparr>,
                  \<lparr>m_start = 23, m_end = 55, m_groups = [''4.2'', ''Replication topology'']\<rparr>]"
    by code_simp
  have h: "\<forall>m\<in>set ?F. m_start m < length ?pre \<longrightarrow> m_end m \<le> length ?pre"
    unfolding ev by simp
  have e0: "finditer figure_re [] = []" by code_simp
  have "figures (analyze_pages
              [\<lparr>extract_text = Some (?pre @ ''Figure 4.2: Replication topology'' @ []),
                extract_words = [] :: (string \<times> nat) list\<rparr>] 5 (init ''book.pdf''))
        = figures (init ''book.pdf'')
            @ map (caption_of 5) (filter (\<lambda>m. m_start m < length ?pre) ?F)
            @ \<lparr>cap_number = ''4.2'', cap_caption = ''Replication topology'', cap_page = 5\<rparr>
            # map (caption_of 5) (finditer figure_re [])"
    by (rule figure_caption_line [OF h]) simp
  then show ?thesis
    unfolding ev e0
    by (simp add: init_def caption_of_def group_def strip_def is_space_def)
qed

text \<open>
  The claim as stated fails: whitespace after the separator includes a line break, so
  a figure tag with no caption on the line before takes the whole line as its caption.
  The page text \<open>Figure 1:\<close>, line break, \<open>Figure 4.2: Replication topology\<close> gives one
  Figure record, with number \<open>1\<close>, and none with number \<open>4.2\<close>.
\<close>

theorem figure_caption_swallowed_counterexample:
  "figures (analyze_pages
              [\<lparr>extract_text = Some (''Figure 1:'' @ [newline] @ ''Figure 4.2: Replication topology''),
                extract_words = [] :: (string \<times> nat) list\<rparr>] 1 (init ''book.pdf''))
   = [\<lparr>cap_number = ''1'', cap_caption = ''Figure 4.2: Replication topology'', cap_page = 1\<rparr>]"
  by code_simp

section \<open>Records of the chapter locator\<close>





















end
